theory Spec2Isabelle
  imports Main "HOL-Library.Sublist"
begin

section \<open>JSON documents as the code sees them\<close>

text \<open>
  Schemas, configuration documents and the defaults document are plain JSON values
  (parsed from the service's responses). An object is an association list in insertion
  order; numbers are only ever tested for being zero, so they are integers here.
  The own enumerable properties of a value are the entries of an object, the index
  entries of an array, the characters of a string. Enumeration follows the list order
  (JavaScript visits integer-like keys of an object first; the model does not reorder).
\<close>

datatype json =
    JNull
  | JBool bool
  | JNum int
  | JStr string
  | JArr "json list"
  | JObj "(string \<times> json) list"

text \<open>JavaScript truthiness of a JSON value; \<open>undefined\<close> is the option \<open>None\<close>.\<close>

fun truthy :: "json \<Rightarrow> bool" where
  "truthy JNull = False"
| "truthy (JBool b) = b"
| "truthy (JNum n) = (n \<noteq> 0)"
| "truthy (JStr s) = (s \<noteq> [])"
| "truthy (JArr xs) = True"
| "truthy (JObj kvs) = True"

fun truthyOpt :: "json option \<Rightarrow> bool" where
  "truthyOpt None = False"
| "truthyOpt (Some v) = truthy v"

definition digit_char :: "nat \<Rightarrow> char" where
  "digit_char d = char_of (48 + d)"

fun string_of_nat :: "nat \<Rightarrow> string" where
  "string_of_nat n =
     (if n < 10 then [digit_char n] else string_of_nat (n div 10) @ [digit_char (n mod 10)])"

declare string_of_nat.simps [simp del]

text \<open>Own enumerable properties, which is also what the spread \<open>{ ...v }\<close> copies.\<close>

fun ownProps :: "json \<Rightarrow> (string \<times> json) list" where
  "ownProps (JObj kvs) = kvs"
| "ownProps (JArr xs) = zip (map string_of_nat [0..<length xs]) xs"
| "ownProps (JStr s) = zip (map string_of_nat [0..<length s]) (map (\<lambda>c. JStr [c]) s)"
| "ownProps JNull = []"
| "ownProps (JBool b) = []"
| "ownProps (JNum n) = []"

text \<open>
  The own enumerable property of a value under a key, or \<open>undefined\<close>. This is what a read
  \<open>v.key\<close> finds when no built-in prototype has a member called \<open>key\<close>, which is so for
  the keys that the traversal reads by name (\<open>default\<close>, \<open>properties\<close>, \<open>$ref\<close>, \<open>$defs\<close>),
  and what \<open>props[key]\<close> finds for a key that \<open>for (key in props)\<close> enumerates.
\<close>

definition getProp :: "json \<Rightarrow> string \<Rightarrow> json option" where
  "getProp v key = map_of (ownProps v) key"

text \<open>
  A read \<open>acc?.[key]\<close> with a key that the schema chooses (a segment of a \<open>$ref\<close>) also
  finds what the value inherits. Its result is nothing, a JSON value, or a member of a
  built-in prototype: a function, or for \<open>__proto__\<close> the prototype object itself. Such a
  member is truthy and has no \<open>default\<close>, no \<open>properties\<close> and no \<open>$ref\<close>.
\<close>

datatype lookup = Undefined | Value json | Builtin

text \<open>The members of \<open>Object.prototype\<close>, which every value but \<open>null\<close> inherits.\<close>

definition objectPrototypeNames :: "string list" where
  "objectPrototypeNames =
     [''constructor'', ''__defineGetter__'', ''__defineSetter__'', ''hasOwnProperty'',
      ''__lookupGetter__'', ''__lookupSetter__'', ''isPrototypeOf'', ''propertyIsEnumerable'',
      ''toString'', ''valueOf'', ''__proto__'', ''toLocaleString'']"

text \<open>
  \<open>acc?.[key]\<close>: nothing on \<open>undefined\<close> and on \<open>null\<close>; otherwise the own property if there
  is one, else the member of \<open>Object.prototype\<close> of that name if there is one, else
  nothing. Two kinds of read are not modelled, and \<open>readProp\<close> answers \<open>Undefined\<close> for
  them: a read on a built-in member, and a read on an array, a string, a number or a
  boolean of a key that is neither an index nor a member of \<open>Object.prototype\<close> (it may
  name a method of the value's own prototype, or \<open>length\<close>). \<open>modelledRead\<close> tells the
  reads that are modelled.
\<close>

fun readProp :: "lookup \<Rightarrow> string \<Rightarrow> lookup" where
  "readProp Undefined key = Undefined"
| "readProp Builtin key = Undefined"
| "readProp (Value v) key =
     (case getProp v key of
        Some c \<Rightarrow> Value c
      | None \<Rightarrow> if v \<noteq> JNull \<and> key \<in> set objectPrototypeNames then Builtin else Undefined)"

fun truthyLookup :: "lookup \<Rightarrow> bool" where
  "truthyLookup Undefined = False"
| "truthyLookup (Value v) = truthy v"
| "truthyLookup Builtin = True"

text \<open>
  A read that \<open>readProp\<close> models: any read on \<open>undefined\<close>, on \<open>null\<close> or on an object; on
  an array, a string, a number or a boolean, the read of an own property, of a member of
  \<open>Object.prototype\<close>, or of a key made of digits (an index, present or not).
\<close>

definition digits :: "string \<Rightarrow> bool" where
  "digits key = list_all (\<lambda>c. c \<in> set ''0123456789'') key"

fun modelledRead :: "lookup \<Rightarrow> string \<Rightarrow> bool" where
  "modelledRead Undefined key = True"
| "modelledRead Builtin key = False"
| "modelledRead (Value (JObj kvs)) key = True"
| "modelledRead (Value JNull) key = True"
| "modelledRead (Value v) key =
     (getProp v key \<noteq> None \<or> key \<in> set objectPrototypeNames \<or> digits key)"

text \<open>
  \<open>obj[key] = value\<close> on an object: an existing key keeps its place, a new one is appended.
  The key \<open>__proto__\<close> is not modelled: there the assignment runs the setter that
  \<open>Object.prototype\<close> has for it, which replaces the prototype of the object or does
  nothing, and creates no property. \<open>plainPath\<close> below tells the paths without it.
\<close>

fun setProp :: "(string \<times> 'a) list \<Rightarrow> string \<Rightarrow> 'a \<Rightarrow> (string \<times> 'a) list" where
  "setProp [] key v = [(key, v)]"
| "setProp ((k, w) # kvs) key v = (if k = key then (key, v) # kvs else (k, w) # setProp kvs key v)"

section \<open>extractDefaultsFromSchema\<close>

text \<open>
  \<open>setDefault(obj, path, value)\<close>. \<open>current\<close> is always an object: \<open>obj\<close> itself, a fresh
  \<open>{}\<close> or a fresh spread copy; the function works on its entries. The loop runs over all
  segments but the last, replacing a falsy child by \<open>{}\<close> and a truthy one by its spread
  copy; the last statement writes at \<open>path[path.length - 1]\<close>, which for the empty path is
  \<open>path[-1]\<close>, that is \<open>undefined\<close>, and the property key is then the string \<open>undefined\<close>.
  The read \<open>current[path[i]]\<close> of a key that the object does not own finds nothing or an
  inherited function, whose spread copy is \<open>{}\<close> as well: both give the empty child. Only
  for the segment \<open>__proto__\<close> does the code differ from this function (it reads and
  replaces the prototype of \<open>current\<close>).
\<close>

fun setDefault :: "(string \<times> json) list \<Rightarrow> string list \<Rightarrow> json \<Rightarrow> (string \<times> json) list" where
  "setDefault cur [] v = setProp cur ''undefined'' v"
| "setDefault cur [k] v = setProp cur k v"
| "setDefault cur (k # k' # ks) v =
     (let child = (if truthyOpt (map_of cur k) then ownProps (the (map_of cur k)) else [])
      in setProp cur k (JObj (setDefault child (k' # ks) v)))"

text \<open>What the loop of \<open>setDefault\<close> puts in place of the child at \<open>k\<close> before descending.\<close>

definition childEntries :: "(string \<times> json) list \<Rightarrow> string \<Rightarrow> (string \<times> json) list" where
  "childEntries cur k = (if truthyOpt (map_of cur k) then ownProps (the (map_of cur k)) else [])"

text \<open>\<open>s.replace(/^#\/\$defs\//, '')\<close> and \<open>s.split('/')\<close>.\<close>

definition stripDefsPrefix :: "string \<Rightarrow> string" where
  "stripDefsPrefix s = (if take 8 s = ''#/$defs/'' then drop 8 s else s)"

fun split :: "char \<Rightarrow> string \<Rightarrow> string list" where
  "split c [] = [[]]"
| "split c (x # xs) =
     (if x = c then [] # split c xs
      else (case split c xs of w # ws \<Rightarrow> (x # w) # ws | [] \<Rightarrow> [[x]]))"

definition refPath :: "string \<Rightarrow> string list" where
  "refPath s = split CHR ''/'' (stripDefsPrefix s)"

text \<open>\<open>rootSchema.$defs\<close>, where the reduction starts.\<close>

definition defsOf :: "json \<Rightarrow> lookup" where
  "defsOf rootSchema = (case getProp rootSchema ''$defs'' of None \<Rightarrow> Undefined | Some v \<Rightarrow> Value v)"

text \<open>\<open>refPath.reduce((acc, key) => acc?.[key], rootSchema.$defs)\<close>.\<close>

definition resolveRef :: "json \<Rightarrow> string \<Rightarrow> lookup" where
  "resolveRef rootSchema s = foldl readProp (defsOf rootSchema) (refPath s)"

text \<open>Every read of the reduction is one that \<open>readProp\<close> models.\<close>

fun modelledReads :: "lookup \<Rightarrow> string list \<Rightarrow> bool" where
  "modelledReads acc [] = True"
| "modelledReads acc (key # keys) = (modelledRead acc key \<and> modelledReads (readProp acc key) keys)"

definition modelledRef :: "json \<Rightarrow> string \<Rightarrow> bool" where
  "modelledRef rootSchema s = modelledReads (defsOf rootSchema) (refPath s)"

text \<open>A path of property keys on which \<open>setDefault\<close> is the code's: no segment is \<open>__proto__\<close>.\<close>

definition plainPath :: "string list \<Rightarrow> bool" where
  "plainPath q = (''__proto__'' \<notin> set q)"

datatype error =
    TypeErrorReadOfNull
  | TypeErrorNotAFunction

text \<open>The traversal state: the entries of \<open>defaults\<close> and the lines sent to \<open>console.error\<close>.\<close>

type_synonym tstate = "(string \<times> json) list \<times> string list"

definition notFound :: "string \<Rightarrow> tstate \<Rightarrow> tstate" where
  "notFound s st = (fst st, snd st @ [''Reference not found: '' @ s])"

definition writeDefault :: "json \<Rightarrow> string list \<Rightarrow> tstate \<Rightarrow> tstate" where
  "writeDefault schema path st =
     (case getProp schema ''default'' of
        None \<Rightarrow> st
      | Some d \<Rightarrow> (setDefault (fst st) path d, snd st))"

text \<open>
  \<open>traverse(schema, path, rootSchema)\<close>. The recursion follows \<open>$ref\<close>s and need not end,
  so it carries fuel: \<open>None\<close> is "out of fuel", \<open>Some (Inl e)\<close> a thrown exception,
  \<open>Some (Inr st)\<close> a normal return. Reading a property of \<open>null\<close> throws; so does calling
  \<open>.replace\<close> on a truthy \<open>$ref\<close> that is not a string. When the reference resolves to a
  built-in member, \<open>traverse\<close> is called on it and returns at once, as it has no
  \<open>default\<close>, \<open>properties\<close> or \<open>$ref\<close>.
\<close>

fun traverse :: "nat \<Rightarrow> json \<Rightarrow> string list \<Rightarrow> json \<Rightarrow> tstate \<Rightarrow> (error + tstate) option"
  and traverseProps ::
    "nat \<Rightarrow> json \<Rightarrow> string list \<Rightarrow> string list \<Rightarrow> json \<Rightarrow> tstate \<Rightarrow> (error + tstate) option"
where
  "traverse 0 schema path rootSchema st = None"
| "traverse (Suc n) schema path rootSchema st =
     (if schema = JNull then Some (Inl TypeErrorReadOfNull)
      else
        (case (if truthyOpt (getProp schema ''properties'')
               then traverseProps n (the (getProp schema ''properties''))
                      (map fst (ownProps (the (getProp schema ''properties''))))
                      path rootSchema (writeDefault schema path st)
               else Some (Inr (writeDefault schema path st))) of
           None \<Rightarrow> None
         | Some (Inl e) \<Rightarrow> Some (Inl e)
         | Some (Inr st2) \<Rightarrow>
             (if truthyOpt (getProp schema ''$ref'') then
                (case the (getProp schema ''$ref'') of
                   JStr s \<Rightarrow>
                     (if rootSchema = JNull then Some (Inl TypeErrorReadOfNull)
                      else
                        (case resolveRef rootSchema s of
                           Value t \<Rightarrow>
                             (if truthy t then traverse n t path rootSchema st2
                              else Some (Inr (notFound s st2)))
                         | Builtin \<Rightarrow> Some (Inr st2)
                         | Undefined \<Rightarrow> Some (Inr (notFound s st2))))
                 | _ \<Rightarrow> Some (Inl TypeErrorNotAFunction))
              else Some (Inr st2))))"
| "traverseProps n props [] path rootSchema st = Some (Inr st)"
| "traverseProps n props (key # keys) path rootSchema st =
     (case getProp props key of
        None \<Rightarrow> Some (Inl TypeErrorReadOfNull)
      | Some child \<Rightarrow>
          (case traverse n child (path @ [key]) rootSchema st of
             None \<Rightarrow> None
           | Some (Inl e) \<Rightarrow> Some (Inl e)
           | Some (Inr st') \<Rightarrow> traverseProps n props keys path rootSchema st'))"

lemmas traverse_Suc = traverse.simps(2)

declare traverse.simps(2) [simp del]

text \<open>
  The two halves of the body of \<open>traverse\<close> after the \<open>default\<close> write, named for the
  proofs: the \<open>properties\<close> loop and the \<open>$ref\<close> resolution.
\<close>

definition propertiesPhase :: "nat \<Rightarrow> json \<Rightarrow> string list \<Rightarrow> json \<Rightarrow> tstate \<Rightarrow> (error + tstate) option" where
  "propertiesPhase n schema path rootSchema st =
     (if truthyOpt (getProp schema ''properties'')
      then traverseProps n (the (getProp schema ''properties''))
             (map fst (ownProps (the (getProp schema ''properties''))))
             path rootSchema (writeDefault schema path st)
      else Some (Inr (writeDefault schema path st)))"

definition refPhase :: "nat \<Rightarrow> json \<Rightarrow> string list \<Rightarrow> json \<Rightarrow> tstate \<Rightarrow> (error + tstate) option" where
  "refPhase n schema path rootSchema st2 =
     (if truthyOpt (getProp schema ''$ref'') then
        (case the (getProp schema ''$ref'') of
           JStr s \<Rightarrow>
             (if rootSchema = JNull then Some (Inl TypeErrorReadOfNull)
              else
                (case resolveRef rootSchema s of
                   Value t \<Rightarrow>
                     (if truthy t then traverse n t path rootSchema st2
                      else Some (Inr (notFound s st2)))
                 | Builtin \<Rightarrow> Some (Inr st2)
                 | Undefined \<Rightarrow> Some (Inr (notFound s st2))))
         | _ \<Rightarrow> Some (Inl TypeErrorNotAFunction))
      else Some (Inr st2))"

text \<open>\<open>extractDefaultsFromSchema(schema)\<close>: the defaults object and the diagnostics.\<close>

definition extractDefaultsFromSchema :: "nat \<Rightarrow> json \<Rightarrow> (error + json \<times> string list) option" where
  "extractDefaultsFromSchema fuel schema =
     (case traverse fuel schema [] schema ([], []) of
        None \<Rightarrow> None
      | Some (Inl e) \<Rightarrow> Some (Inl e)
      | Some (Inr st) \<Rightarrow> Some (Inr (JObj (fst st), snd st)))"

section \<open>Paths, sub-values and the call graph of the traversal\<close>

text \<open>The value reachable in a document along a path of keys.\<close>

fun getPath :: "json \<Rightarrow> string list \<Rightarrow> json option" where
  "getPath v [] = Some v"
| "getPath v (k # ks) = (case getProp v k of None \<Rightarrow> None | Some c \<Rightarrow> getPath c ks)"

text \<open>Every value that property reads can reach inside a value.\<close>

fun subvals :: "json \<Rightarrow> json set" where
  "subvals (JObj kvs) = insert (JObj kvs) (\<Union>v \<in> set (map snd kvs). subvals v)"
| "subvals (JArr xs) = insert (JArr xs) (\<Union>v \<in> set xs. subvals v)"
| "subvals (JStr s) = insert (JStr s) ((\<lambda>c. JStr [c]) ` set s)"
| "subvals JNull = {JNull}"
| "subvals (JBool b) = {JBool b}"
| "subvals (JNum n) = {JNum n}"

text \<open>
  The nodes on which one call of \<open>traverse\<close> calls itself: the property values, in the
  order of the loop, then the resolved \<open>$ref\<close> target if it is a truthy JSON value (the
  call on a built-in member calls nothing).
\<close>

definition propChildren :: "json \<Rightarrow> json list" where
  "propChildren s =
     (if truthyOpt (getProp s ''properties'')
      then map (\<lambda>key. the (getProp (the (getProp s ''properties'')) key))
             (map fst (ownProps (the (getProp s ''properties''))))
      else [])"

definition refChild :: "json \<Rightarrow> json \<Rightarrow> json list" where
  "refChild rootSchema s =
     (if truthyOpt (getProp s ''$ref'') then
        (case the (getProp s ''$ref'') of
           JStr r \<Rightarrow>
             (case resolveRef rootSchema r of
                Value t \<Rightarrow> if truthy t then [t] else []
              | _ \<Rightarrow> [])
         | _ \<Rightarrow> [])
      else [])"

definition callees :: "json \<Rightarrow> json \<Rightarrow> json list" where
  "callees rootSchema s = propChildren s @ refChild rootSchema s"

lemma self_subvals: "v \<in> subvals v"
  by (cases v) auto

lemma finite_subvals: "finite (subvals v)"
  by (induction v) auto

lemma subvals_trans: "c \<in> subvals v \<Longrightarrow> subvals c \<subseteq> subvals v"
proof (induction v arbitrary: c)
  case (JObj kvs)
  then show ?case by (fastforce simp: image_iff)
next
  case (JArr xs)
  then show ?case by fastforce
qed auto

lemma ownProps_subvals: "(k, c) \<in> set (ownProps v) \<Longrightarrow> c \<in> subvals v"
proof (cases v)
  case (JObj kvs)
  assume "(k, c) \<in> set (ownProps v)"
  with JObj have "c \<in> snd ` set kvs" by force
  moreover have "c \<in> subvals c" by (rule self_subvals)
  ultimately show ?thesis using JObj by auto
next
  case (JArr xs)
  assume "(k, c) \<in> set (ownProps v)"
  with JArr have "c \<in> set xs" by (auto dest: set_zip_rightD)
  moreover have "c \<in> subvals c" by (rule self_subvals)
  ultimately show ?thesis using JArr by auto
next
  case (JStr s)
  assume "(k, c) \<in> set (ownProps v)"
  with JStr show ?thesis by (auto dest!: set_zip_rightD)
qed auto

lemma getProp_subvals: "getProp v k = Some c \<Longrightarrow> c \<in> subvals v"
  unfolding getProp_def by (auto dest: map_of_SomeD ownProps_subvals)

lemma foldl_readProp_Undefined [simp]: "foldl readProp Undefined ks = Undefined"
  by (induction ks) auto

lemma foldl_readProp_subvals:
  "foldl readProp acc ks = Value t \<Longrightarrow> \<exists>a. acc = Value a \<and> t \<in> subvals a"
proof (induction ks arbitrary: acc)
  case Nil
  then show ?case by (simp add: self_subvals)
next
  case (Cons k ks)
  then obtain b where b: "readProp acc k = Value b" "t \<in> subvals b" by fastforce
  then obtain a where a: "acc = Value a" "getProp a k = Some b"
    by (cases acc) (auto split: option.splits if_splits)
  with b show ?case using subvals_trans[OF getProp_subvals[OF a(2)]] by auto
qed

lemma resolveRef_subvals: "resolveRef rootSchema r = Value t \<Longrightarrow> t \<in> subvals rootSchema"
proof -
  assume "resolveRef rootSchema r = Value t"
  then obtain a where a: "defsOf rootSchema = Value a" "t \<in> subvals a"
    unfolding resolveRef_def by (blast dest: foldl_readProp_subvals)
  from a(1) have "getProp rootSchema ''$defs'' = Some a"
    by (auto simp: defsOf_def split: option.splits)
  with a(2) show ?thesis using subvals_trans[OF getProp_subvals] by blast
qed

lemma resolveRef_JNull [simp]: "resolveRef JNull r = Undefined"
  by (simp add: resolveRef_def defsOf_def getProp_def)

lemma refChild_target:
  "c \<in> set (refChild rootSchema s) \<Longrightarrow>
     \<exists>r. truthyOpt (getProp s ''$ref'') \<and> the (getProp s ''$ref'') = JStr r \<and>
         resolveRef rootSchema r = Value c \<and> truthy c \<and> refChild rootSchema s = [c]"
proof -
  assume c: "c \<in> set (refChild rootSchema s)"
  then have t: "truthyOpt (getProp s ''$ref'')"
    by (cases "truthyOpt (getProp s ''$ref'')") (simp_all add: refChild_def)
  with c obtain r where r: "the (getProp s ''$ref'') = JStr r"
    by (cases "the (getProp s ''$ref'')") (simp_all add: refChild_def)
  with c t have "c \<in> set (case resolveRef rootSchema r of
                Value t \<Rightarrow> if truthy t then [t] else [] | _ \<Rightarrow> [])"
    by (simp add: refChild_def)
  then have "resolveRef rootSchema r = Value c \<and> truthy c"
    by (cases "resolveRef rootSchema r") (auto split: if_splits)
  with t r show ?thesis by (auto simp: refChild_def)
qed

lemma truthyOpt_Some: "truthyOpt x \<Longrightarrow> \<exists>v. x = Some v \<and> truthy v"
  by (cases x) auto

lemma callees_subvals: "c \<in> set (callees rootSchema s) \<Longrightarrow> c \<in> subvals s \<union> subvals rootSchema"
proof -
  assume c: "c \<in> set (callees rootSchema s)"
  then consider "c \<in> set (propChildren s)" | "c \<in> set (refChild rootSchema s)"
    by (auto simp: callees_def)
  then show ?thesis
  proof cases
    case 1
    then have t: "truthyOpt (getProp s ''properties'')"
      by (auto simp: propChildren_def split: if_splits)
    then obtain props where p: "getProp s ''properties'' = Some props"
      by (auto dest: truthyOpt_Some)
    with 1 t have "c \<in> set (map (\<lambda>key. the (getProp props key)) (map fst (ownProps props)))"
      by (simp add: propChildren_def)
    then obtain key where k: "key \<in> fst ` set (ownProps props)"
      and ceq: "c = the (getProp props key)" by auto
    from k obtain w where "getProp props key = Some w"
      unfolding getProp_def by (metis (no_types) domD dom_map_of_conv_image_fst)
    with ceq have "getProp props key = Some c" by simp
    then have "c \<in> subvals props" by (rule getProp_subvals)
    then show ?thesis using subvals_trans[OF getProp_subvals[OF p]] by auto
  next
    case 2
    then obtain r where "resolveRef rootSchema r = Value c"
      by (blast dest: refChild_target)
    then show ?thesis by (auto dest: resolveRef_subvals)
  qed
qed

text \<open>
  A depth-first check of the call graph below a node: following the calls of the
  traversal from \<open>s\<close>, no node is met again among its own ancestors \<open>anc\<close>, and every node
  met satisfies \<open>ok\<close>. The check ends because every node it meets is a sub-value of the
  node or of the root, and the ancestors are distinct.
\<close>

function checkFrom :: "(json \<Rightarrow> bool) \<Rightarrow> json \<Rightarrow> json list \<Rightarrow> json \<Rightarrow> bool" where
  "checkFrom ok rootSchema anc s =
     (if s \<in> set anc then False
      else ok s \<and> (\<forall>c \<in> set (callees rootSchema s). checkFrom ok rootSchema (s # anc) c))"
  by pat_completeness auto
termination
proof (relation "measure (\<lambda>(ok, rootSchema, anc, s). card ((subvals rootSchema \<union> subvals s) - set anc))")
  show "wf (measure (\<lambda>(ok :: json \<Rightarrow> bool, rootSchema, anc, s).
          card ((subvals rootSchema \<union> subvals s) - set anc)))"
    by simp
next
  fix ok :: "json \<Rightarrow> bool" and rootSchema :: json and anc :: "json list" and s c :: json
  assume s: "s \<notin> set anc" and c: "c \<in> set (callees rootSchema s)"
  have fin: "finite ((subvals rootSchema \<union> subvals s) - set anc)"
    by (simp add: finite_subvals)
  from c have "c \<in> subvals s \<union> subvals rootSchema" by (rule callees_subvals)
  then have "subvals c \<subseteq> subvals rootSchema \<union> subvals s"
    using subvals_trans by blast
  then have "(subvals rootSchema \<union> subvals c) - set (s # anc)
      \<subseteq> ((subvals rootSchema \<union> subvals s) - set anc) - {s}" by auto
  moreover have "s \<in> (subvals rootSchema \<union> subvals s) - set anc"
    using s self_subvals by auto
  ultimately have "(subvals rootSchema \<union> subvals c) - set (s # anc)
      \<subset> (subvals rootSchema \<union> subvals s) - set anc" by blast
  with fin have "card ((subvals rootSchema \<union> subvals c) - set (s # anc))
      < card ((subvals rootSchema \<union> subvals s) - set anc)"
    by (rule psubset_card_mono)
  then show "((ok, rootSchema, s # anc, c), (ok, rootSchema, anc, s))
      \<in> measure (\<lambda>(ok, rootSchema, anc, s). card ((subvals rootSchema \<union> subvals s) - set anc))"
    by simp
qed

declare checkFrom.simps [simp del]

text \<open>No \<open>$ref\<close> cycle can be reached from \<open>s\<close>.\<close>

definition acyclicFrom :: "json \<Rightarrow> json list \<Rightarrow> json \<Rightarrow> bool" where
  "acyclicFrom rootSchema anc s = checkFrom (\<lambda>v. True) rootSchema anc s"

text \<open>
  A node on which \<open>traverse\<close> cannot throw by itself: it is not \<open>null\<close>, and its \<open>$ref\<close>,
  when truthy, is a string.
\<close>

definition nodeOk :: "json \<Rightarrow> bool" where
  "nodeOk s =
     (s \<noteq> JNull \<and>
      (case getProp s ''$ref'' of
         None \<Rightarrow> True
       | Some (JStr r) \<Rightarrow> True
       | Some v \<Rightarrow> \<not> truthy v))"

text \<open>
  A schema tree: no \<open>$ref\<close> cycle, and every node the traversal meets is such a node
  whose reference, if it has one, is resolved by reads that \<open>readProp\<close> models.
\<close>

definition treeNode :: "json \<Rightarrow> json \<Rightarrow> bool" where
  "treeNode rootSchema s =
     (nodeOk s \<and>
      (case getProp s ''$ref'' of
         Some (JStr r) \<Rightarrow> r = [] \<or> modelledRef rootSchema r
       | _ \<Rightarrow> True))"

definition schemaTree :: "json \<Rightarrow> bool" where
  "schemaTree schema = checkFrom (treeNode schema) schema [] schema"

section \<open>The declared defaults of a schema\<close>

text \<open>
  What the specification calls the paths that have a default declared, directly or via
  a resolvable reference, as a list: the declarations \<open>(path, value)\<close> of a schema
  node standing at a path, in document order (the node's own default, those of its
  properties with the path extended by the key, those of the resolved \<open>$ref\<close> target at
  the same path), with fuel as the schema may be cyclic. This definition follows the
  specification and never writes a document.
\<close>

definition ownDefault :: "json \<Rightarrow> string list \<Rightarrow> (string list \<times> json) list" where
  "ownDefault s p = (case getProp s ''default'' of None \<Rightarrow> [] | Some d \<Rightarrow> [(p, d)])"

fun declared :: "nat \<Rightarrow> json \<Rightarrow> string list \<Rightarrow> json \<Rightarrow> (string list \<times> json) list option"
  and declaredProps ::
    "nat \<Rightarrow> json \<Rightarrow> string list \<Rightarrow> string list \<Rightarrow> json \<Rightarrow> (string list \<times> json) list option"
where
  "declared 0 s p rootSchema = None"
| "declared (Suc n) s p rootSchema =
     (case (if truthyOpt (getProp s ''properties'')
            then declaredProps n (the (getProp s ''properties''))
                   (map fst (ownProps (the (getProp s ''properties'')))) p rootSchema
            else Some []) of
        None \<Rightarrow> None
      | Some viaProps \<Rightarrow>
          (case refChild rootSchema s of
             [] \<Rightarrow> Some (ownDefault s p @ viaProps)
           | t # _ \<Rightarrow>
               (case declared n t p rootSchema of
                  None \<Rightarrow> None
                | Some viaRef \<Rightarrow> Some (ownDefault s p @ viaProps @ viaRef))))"
| "declaredProps n props [] p rootSchema = Some []"
| "declaredProps n props (key # keys) p rootSchema =
     (case getProp props key of
        None \<Rightarrow> declaredProps n props keys p rootSchema
      | Some child \<Rightarrow>
          (case declared n child (p @ [key]) rootSchema of
             None \<Rightarrow> None
           | Some here \<Rightarrow>
               (case declaredProps n props keys p rootSchema of
                  None \<Rightarrow> None
                | Some later \<Rightarrow> Some (here @ later))))"

lemmas declared_Suc = declared.simps(2)
declare declared.simps(2) [simp del]

text \<open>A sequence of \<open>setDefault\<close> writes, first to last.\<close>

definition applyWrites :: "(string \<times> json) list \<Rightarrow> (string list \<times> json) list \<Rightarrow> (string \<times> json) list" where
  "applyWrites cur ws = foldl (\<lambda>acc w. setDefault acc (fst w) (snd w)) cur ws"

text \<open>
  The path of keys at which \<open>setDefault\<close> writes: the path itself, and for the empty path
  the key \<open>undefined\<close>.
\<close>

definition target :: "string list \<Rightarrow> string list" where
  "target q = (if q = [] then [''undefined''] else q)"

text \<open>
  The value \<open>d\<close> is an object that holds \<open>d'\<close> at the relative path \<open>rest\<close>, with objects all
  the way down to it (for the empty path: \<open>d\<close> is \<open>d'\<close>). A write of \<open>d'\<close> at that path
  then leaves \<open>d\<close> as it is.
\<close>

fun holdsThrough :: "json \<Rightarrow> string list \<Rightarrow> json \<Rightarrow> bool" where
  "holdsThrough d [] d' = (d = d')"
| "holdsThrough d (k # ks) d' =
     (case d of
        JObj kvs \<Rightarrow> (case map_of kvs k of None \<Rightarrow> False | Some c \<Rightarrow> holdsThrough c ks d')
      | _ \<Rightarrow> False)"

text \<open>
  An earlier declaration \<open>w\<close> and a later one \<open>w'\<close> agree: their paths are unrelated; or the
  later one is at or below the earlier one, whose value already holds it there; or the
  later one is above the earlier one and contains its value at the relative path.
\<close>

definition agree :: "string list \<times> json \<Rightarrow> string list \<times> json \<Rightarrow> bool" where
  "agree w w' =
     (if prefix (fst w) (fst w')
      then holdsThrough (snd w) (drop (length (fst w)) (fst w')) (snd w')
      else if prefix (fst w') (fst w)
      then getPath (snd w') (drop (length (fst w')) (fst w)) = Some (snd w)
      else True)"

text \<open>
  Declarations, in the order of the traversal, none of which undoes another: none is at
  the root, and each agrees with every later one.
\<close>

fun compatible :: "(string list \<times> json) list \<Rightarrow> bool" where
  "compatible [] = True"
| "compatible (w # ws) = (fst w \<noteq> [] \<and> (\<forall>w' \<in> set ws. agree w w') \<and> compatible ws)"


text \<open>Example schemas.\<close>

definition nestedSchema :: json where
  "nestedSchema =
     JObj [(''properties'',
            JObj [(''a'', JObj [(''default'', JNum 7),
                                (''properties'', JObj [(''b'', JObj [(''default'', JNum 5)])])])])]"

definition rootRefSchema :: json where
  "rootRefSchema =
     JObj [(''default'', JNum 1), (''$ref'', JStr ''#/$defs/R''),
           (''$defs'', JObj [(''R'', JObj [(''default'', JNum 2)])])]"

definition rootDefaultSchema :: json where
  "rootDefaultSchema =
     JObj [(''default'', JNum 1), (''properties'', JObj [(''a'', JObj [(''default'', JNum 2)])])]"

definition overrideSchema :: json where
  "overrideSchema =
     JObj [(''properties'', JObj [(''k'', JObj [(''default'', JNum 1)])]),
           (''$ref'', JStr ''#/$defs/R''),
           (''$defs'', JObj [(''R'', JObj [(''properties'', JObj [(''k'', JObj [(''default'', JNum 2)])])])])]"



text \<open>An object default above the defaults of its fields, which a reference supplies.\<close>

definition agreeingSchema :: json where
  "agreeingSchema =
     JObj [(''properties'',
            JObj [(''a'', JObj [(''default'', JObj [(''x'', JNum 1)]), (''$ref'', JStr ''#/$defs/A'')]),
                  (''b'', JObj [(''default'', JNum 2)])]),
           (''$defs'', JObj [(''A'', JObj [(''properties'', JObj [(''x'', JObj [(''default'', JNum 1)])])])])]"

text \<open>A root default beside a root-level reference whose target has no default of its own.\<close>

definition rootRefPropsSchema :: json where
  "rootRefPropsSchema =
     JObj [(''default'', JNum 1), (''$ref'', JStr ''#/$defs/R''),
           (''$defs'', JObj [(''R'', JObj [(''properties'', JObj [(''a'', JObj [(''default'', JNum 2)])])])])]"

text \<open>A root default beside a property named \<open>undefined\<close>.\<close>

definition undefinedPropSchema :: json where
  "undefinedPropSchema =
     JObj [(''default'', JNum 1),
           (''properties'', JObj [(''undefined'', JObj [(''default'', JNum 2)])])]"

text \<open>The scenario of the specification: a direct default beside a referenced one.\<close>

definition scenarioSchema :: json where
  "scenarioSchema =
     JObj [(''properties'', JObj [(''x'', JObj [(''default'', JNum 1)]),
                                  (''y'', JObj [(''$ref'', JStr ''#/$defs/Y'')])]),
           (''$defs'', JObj [(''Y'', JObj [(''default'', JNum 2)])])]"

section \<open>setDefault on a store with shared objects\<close>















section \<open>The editor component\<close>

text \<open>
  Modelled from the spec: \<open>Utility.deepDiff\<close> (\<open>libs/Utility\<close> is not among the sources).
  The specification defines it so: for every key present in either operand, if both values
  are structurally equal (recursively, for nested mappings) skip it, else record it as
  changed. The result is the list of changed keys, \<open>Object.keys(diff)\<close>. Two objects are
  structurally equal when every entry of one has a structurally equal entry under the same
  key in the other; arrays are compared element by element.
\<close>

lemma size_entry [termination_simp]:
  "(k, v) \<in> set kvs \<Longrightarrow> size v < Suc (size_list (size_prod (\<lambda>x. 0) size) kvs)"
  by (induction kvs) auto

lemma size_zip_left [termination_simp]:
  "(x, y) \<in> set (zip xs ys) \<Longrightarrow> size x < Suc (size_list size xs)"
proof -
  assume "(x, y) \<in> set (zip xs ys)"
  then have "x \<in> set xs" by (rule set_zip_leftD)
  then show ?thesis by (induction xs) auto
qed

fun structEq :: "json \<Rightarrow> json \<Rightarrow> bool" where
  "structEq (JObj a) (JObj b) =
     ((\<forall>(k, x) \<in> set a. \<exists>(k', y) \<in> set b. k' = k \<and> structEq x y) \<and>
      (\<forall>(k', y) \<in> set b. \<exists>(k, x) \<in> set a. k = k' \<and> structEq x y))"
| "structEq (JArr xs) (JArr ys) =
     (length xs = length ys \<and> (\<forall>(x, y) \<in> set (zip xs ys). structEq x y))"
| "structEq x y = (x = y)"

fun structEqOpt :: "json option \<Rightarrow> json option \<Rightarrow> bool" where
  "structEqOpt None None = True"
| "structEqOpt (Some x) (Some y) = structEq x y"
| "structEqOpt x y = False"

definition deepDiff :: "json \<Rightarrow> json \<Rightarrow> string list" where
  "deepDiff a b =
     filter (\<lambda>key. \<not> structEqOpt (getProp a key) (getProp b key))
       (remdups (map fst (ownProps a) @ map fst (ownProps b)))"


text \<open>
  The data of \<open>useGetConfigQuery\<close>, called \<open>config\<close> in the component: the configuration
  document, its schema and the presentation hints.
\<close>

record assistantConfig =
  config :: "json option"
  jsonSchema :: "json option"
  uiSchema :: "json option"

text \<open>
  \<open>useUpdateConfigMutation\<close> is not among the sources, so the outcome of the awaited
  \<open>updateConfig\<close> call is a parameter: the call resolves with some result, which
  \<open>handleChange\<close> never looks at (the hooks of this service report \<open>data\<close> or \<open>error\<close> in
  their result, as at lines 46 to 50), or it rejects, and the \<open>await\<close> throws.
\<close>

datatype response = Data assistantConfig | Error string

datatype settlement = Resolves response | Rejects

text \<open>
  The state of the component: its props, the query result, the two \<open>useState\<close> cells, and
  the \<open>updateConfig\<close> requests sent and not yet settled, oldest first.
\<close>

record editor =
  assistantId :: string
  data :: "assistantConfig option"
  isLoadingConfig :: bool
  formData :: "json option"
  isDirty :: bool
  inFlight :: "(string \<times> assistantConfig) list"

text \<open>The effects of lines 60 to 63 and 79 to 85.\<close>

definition loadEffect :: "editor \<Rightarrow> editor" where
  "loadEffect st =
     (if isLoadingConfig st then st
      else st\<lparr>formData := (case data st of None \<Rightarrow> None | Some c \<Rightarrow> config c)\<rparr>)"

definition dirtyEffect :: "editor \<Rightarrow> editor" where
  "dirtyEffect st =
     (case data st of
        None \<Rightarrow> st
      | Some c \<Rightarrow>
          (if truthyOpt (config c) \<and> truthyOpt (formData st)
           then st\<lparr>isDirty := (deepDiff (the (config c)) (the (formData st)) \<noteq> [])\<rparr>
           else st))"

text \<open>
  \<open>handleChange\<close>, cut at its \<open>await\<close>: up to and including the call of \<open>updateConfig\<close>
  (\<open>None\<close> when it returns at once for want of a configuration), and from the settlement
  of request number \<open>i\<close> on.
\<close>

definition handleChange_send :: "editor \<Rightarrow> json \<Rightarrow> editor option" where
  "handleChange_send st updatedConfig =
     (case data st of
        None \<Rightarrow> None
      | Some c \<Rightarrow>
          Some (st\<lparr>formData := Some updatedConfig,
                   inFlight := inFlight st @ [(assistantId st, c\<lparr>config := Some updatedConfig\<rparr>)]\<rparr>))"

definition handleChange_settled :: "editor \<Rightarrow> nat \<Rightarrow> settlement \<Rightarrow> editor" where
  "handleChange_settled st i outcome =
     (case outcome of
        Rejects \<Rightarrow> st\<lparr>inFlight := take i (inFlight st) @ drop (Suc i) (inFlight st)\<rparr>
      | Resolves r \<Rightarrow>
          st\<lparr>inFlight := take i (inFlight st) @ drop (Suc i) (inFlight st), isDirty := False\<rparr>)"

definition restoreConfig :: "editor \<Rightarrow> json \<Rightarrow> editor" where
  "restoreConfig st c = st\<lparr>formData := Some c\<rparr>"

definition onChange :: "editor \<Rightarrow> json option \<Rightarrow> editor" where
  "onChange st newFormData = st\<lparr>formData := newFormData\<rparr>"

text \<open>
  The operations as the specification names them. The form and its buttons exist once the
  configuration is loaded (line 87); the Save button is disabled unless \<open>isDirty\<close> and calls
  \<open>handleChange(formData ?? {})\<close>. An operation that changes \<open>formData\<close> is followed by a
  render, in which the effect of line 79 runs.
  Modelled from the spec: the Reset button (\<open>ApplyConfigButton\<close> is not among the
  sources; it is given \<open>newConfig = config.config\<close> and \<open>onApply = restoreConfig\<close>): \<open>reset\<close>
  replaces FormState with the last-synced document, that is, applies \<open>restoreConfig\<close> to
  \<open>config.config\<close>.
\<close>

definition rendered :: "editor \<Rightarrow> bool" where
  "rendered st = (\<not> isLoadingConfig st \<and> data st \<noteq> None)"

definition onFieldChange :: "editor \<Rightarrow> json option \<Rightarrow> editor" where
  "onFieldChange st newValue = dirtyEffect (onChange st newValue)"

definition reset :: "editor \<Rightarrow> editor" where
  "reset st =
     (case data st of
        None \<Rightarrow> st
      | Some c \<Rightarrow>
          (case config c of
             None \<Rightarrow> st
           | Some saved \<Rightarrow> if rendered st then dirtyEffect (restoreConfig st saved) else st))"

definition save :: "editor \<Rightarrow> editor option" where
  "save st =
     (if rendered st \<and> isDirty st
      then handleChange_send st
             (case formData st of None \<Rightarrow> JObj [] | Some JNull \<Rightarrow> JObj [] | Some f \<Rightarrow> f)
      else None)"

text \<open>
  The component before the query has answered, and the arrival of the answer: the two
  effects run in the order of the source.
\<close>

definition initialState :: "string \<Rightarrow> editor" where
  "initialState aid =
     \<lparr>assistantId = aid, data = None, isLoadingConfig = True, formData = None,
      isDirty = False, inFlight = []\<rparr>"

definition queryLoaded :: "editor \<Rightarrow> assistantConfig \<Rightarrow> editor" where
  "queryLoaded st c = dirtyEffect (loadEffect (st\<lparr>data := Some c, isLoadingConfig := False\<rparr>))"

text \<open>The scenario of the specification: saved \<open>{x: 1}\<close>, edited to \<open>{x: 2}\<close>.\<close>

definition editedState :: editor where
  "editedState =
     \<lparr>assistantId = ''a1'',
      data = Some \<lparr>config = Some (JObj [(''x'', JNum 1)]), jsonSchema = None, uiSchema = None\<rparr>,
      isLoadingConfig = False,
      formData = Some (JObj [(''x'', JNum 2)]),
      isDirty = True,
      inFlight = []\<rparr>"

section \<open>Writes and reads along paths\<close>

lemmas eval_defs = getProp_def writeDefault_def resolveRef_def defsOf_def refPath_def
  stripDefsPrefix_def objectPrototypeNames_def notFound_def extractDefaultsFromSchema_def traverse_Suc declared_Suc ownDefault_def
  refChild_def callees_def propChildren_def checkFrom.simps

lemma size_lookup: "map_of kvs k = Some v \<Longrightarrow> size v < size (JObj kvs)"
  by (induction kvs) (auto split: if_splits)



lemma map_of_setProp: "map_of (setProp kvs k v) k' = (if k' = k then Some v else map_of kvs k')"
  by (induction kvs k v rule: setProp.induct) auto

lemma getProp_JObj: "getProp (JObj kvs) k = map_of kvs k"
  by (simp add: getProp_def)

lemma getPath_Cons_JObj:
  "getPath (JObj kvs) (k # ks) = (case map_of kvs k of None \<Rightarrow> None | Some c \<Rightarrow> getPath c ks)"
  by (simp add: getProp_JObj)

lemma getPath_spread: "ks \<noteq> [] \<Longrightarrow> getPath (JObj (ownProps c)) ks = getPath c ks"
  by (cases ks) (simp_all add: getProp_def)

lemma ownProps_falsy: "\<not> truthy c \<Longrightarrow> ownProps c = []"
  by (cases c) auto

lemma getPath_falsy: "\<not> truthy c \<Longrightarrow> ks \<noteq> [] \<Longrightarrow> getPath c ks = None"
  by (cases ks) (simp_all add: getProp_def ownProps_falsy)

lemma setDefault_Cons2:
  "setDefault cur (k # k' # ks) v = setProp cur k (JObj (setDefault (childEntries cur k) (k' # ks) v))"
  by (simp add: childEntries_def)

lemma getPath_childEntries:
  "ks \<noteq> [] \<Longrightarrow> getPath (JObj (childEntries cur k)) ks = getPath (JObj cur) (k # ks)"
proof (cases "map_of cur k")
  case None
  assume "ks \<noteq> []"
  then show ?thesis using None by (cases ks) (simp_all add: childEntries_def getProp_JObj)
next
  case (Some c)
  assume ks: "ks \<noteq> []"
  show ?thesis
  proof (cases "truthy c")
    case True
    with Some ks show ?thesis by (simp add: childEntries_def getProp_JObj getPath_spread)
  next
    case False
    with Some ks have "getPath c ks = None" by (simp add: getPath_falsy)
    moreover from ks have "getPath (JObj []) ks = None" by (cases ks) (simp_all add: getProp_JObj)
    ultimately show ?thesis using Some False by (simp add: childEntries_def getProp_JObj)
  qed
qed

lemma getPath_setDefault_same:
  "q \<noteq> [] \<Longrightarrow> getPath (JObj (setDefault cur q v)) q = Some v"
proof (induction cur q v rule: setDefault.induct)
  case (1 cur v)
  then show ?case by simp
next
  case (2 cur k v)
  then show ?case by (simp add: getProp_JObj map_of_setProp)
next
  case (3 cur k k' ks v)
  have "getPath (JObj (setDefault (childEntries cur k) (k' # ks) v)) (k' # ks) = Some v"
    using 3 by (simp add: childEntries_def)
  then show ?case
    by (simp only: setDefault_Cons2 getPath_Cons_JObj map_of_setProp) (simp add: getProp_JObj)
qed

lemma getPath_setDefault_frame:
  "\<not> prefix p q \<Longrightarrow> \<not> prefix q p \<Longrightarrow>
   getPath (JObj (setDefault cur q v)) p = getPath (JObj cur) p"
proof (induction cur q v arbitrary: p rule: setDefault.induct)
  case (1 cur v)
  then show ?case by simp
next
  case (2 cur k v)
  then obtain a p' where p: "p = a # p'" by (cases p) auto
  with 2 have "a \<noteq> k" by auto
  with p show ?case by (simp add: getProp_JObj map_of_setProp)
next
  case (3 cur k k' ks v)
  then obtain a p' where p: "p = a # p'" by (cases p) auto
  show ?case
  proof (cases "a = k")
    case False
    with p show ?thesis
      by (simp only: setDefault_Cons2 getPath_Cons_JObj map_of_setProp) simp
  next
    case True
    with p "3.prems" have np: "\<not> prefix p' (k' # ks)" "\<not> prefix (k' # ks) p'" by auto
    then have ne: "p' \<noteq> []" by auto
    have "getPath (JObj (setDefault (childEntries cur k) (k' # ks) v)) p'
          = getPath (JObj (childEntries cur k)) p'"
      using "3.IH"[OF _ np] by (simp add: childEntries_def)
    also have "\<dots> = getPath (JObj cur) (k # p')" using ne by (rule getPath_childEntries)
    finally show ?thesis using p True
      by (simp only: setDefault_Cons2 getPath_Cons_JObj map_of_setProp) simp
  qed
qed

section \<open>Fuel and termination\<close>

lemma traverse_phases:
  "traverse (Suc n) schema path rootSchema st =
     (if schema = JNull then Some (Inl TypeErrorReadOfNull)
      else (case propertiesPhase n schema path rootSchema st of
              None \<Rightarrow> None
            | Some (Inl e) \<Rightarrow> Some (Inl e)
            | Some (Inr st2) \<Rightarrow> refPhase n schema path rootSchema st2))"
  by (simp only: traverse_Suc propertiesPhase_def refPhase_def)

lemma traverseProps_mono_step:
  assumes IH: "\<And>s p st r. traverse n s p rootSchema st = Some r \<Longrightarrow> traverse (Suc n) s p rootSchema st = Some r"
  shows "traverseProps n props keys p rootSchema st = Some r
         \<Longrightarrow> traverseProps (Suc n) props keys p rootSchema st = Some r"
proof (induction keys arbitrary: st)
  case Nil
  then show ?case by simp
next
  case (Cons key keys)
  show ?case
  proof (cases "getProp props key")
    case None
    with Cons.prems show ?thesis by simp
  next
    case (Some child)
    show ?thesis
    proof (cases "traverse n child (p @ [key]) rootSchema st")
      case None
      with Some Cons.prems show ?thesis by simp
    next
      case (Some res)
      note res = this
      from IH[OF res] have res': "traverse (Suc n) child (p @ [key]) rootSchema st = Some res" .
      show ?thesis
      proof (cases res)
        case (Inl e)
        with res \<open>getProp props key = Some child\<close> Cons.prems have "r = Inl e" by simp
        with Inl res' \<open>getProp props key = Some child\<close> show ?thesis by simp
      next
        case (Inr st')
        with res \<open>getProp props key = Some child\<close> Cons.prems
        have "traverseProps n props keys p rootSchema st' = Some r" by simp
        from Cons.IH[OF this] Inr res' \<open>getProp props key = Some child\<close>
        show ?thesis by simp
      qed
    qed
  qed
qed

lemma refPhase_target:
  assumes "refChild rootSchema s = t # ts"
  shows "refPhase n s p rootSchema st2 = traverse n t p rootSchema st2"
proof -
  from assms have "t \<in> set (refChild rootSchema s)" by simp
  then obtain r where r: "truthyOpt (getProp s ''$ref'')" "the (getProp s ''$ref'') = JStr r"
    "resolveRef rootSchema r = Value t" "truthy t"
    by (blast dest: refChild_target)
  from r(3) have "rootSchema \<noteq> JNull" by auto
  with r show ?thesis by (simp add: refPhase_def)
qed

lemma refPhase_no_target:
  assumes "refChild rootSchema s = []"
  shows "refPhase n s p rootSchema st2 = Some (Inl TypeErrorReadOfNull) \<or>
         refPhase n s p rootSchema st2 = Some (Inl TypeErrorNotAFunction) \<or>
         refPhase n s p rootSchema st2 = Some (Inr st2) \<or>
         (\<exists>r. refPhase n s p rootSchema st2 = Some (Inr (notFound r st2)))"
proof (cases "truthyOpt (getProp s ''$ref'')")
  case False
  then show ?thesis by (simp add: refPhase_def)
next
  case True
  show ?thesis
  proof (cases "the (getProp s ''$ref'')")
    case (JStr r)
    show ?thesis
    proof (cases "resolveRef rootSchema r")
      case (Value t)
      with assms True JStr have "\<not> truthy t"
        by (auto simp: refChild_def split: if_splits)
      with True JStr Value show ?thesis by (auto simp: refPhase_def)
    qed (use True JStr in \<open>auto simp: refPhase_def\<close>)
  qed (use True in \<open>simp_all add: refPhase_def\<close>)
qed

lemma refPhase_fuel:
  assumes "refChild rootSchema s = []"
  shows "refPhase n s p rootSchema st2 = refPhase m s p rootSchema st2"
proof (cases "truthyOpt (getProp s ''$ref'')")
  case False
  then show ?thesis by (simp add: refPhase_def)
next
  case True
  show ?thesis
  proof (cases "the (getProp s ''$ref'')")
    case (JStr r)
    show ?thesis
    proof (cases "resolveRef rootSchema r")
      case (Value t)
      with assms True JStr have "\<not> truthy t"
        by (auto simp: refChild_def split: if_splits)
      with True JStr Value show ?thesis by (simp add: refPhase_def)
    qed (use True JStr in \<open>simp_all add: refPhase_def\<close>)
  qed (use True in \<open>simp_all add: refPhase_def\<close>)
qed

lemma traverse_mono_Suc:
  "traverse n s p rootSchema st = Some r \<Longrightarrow> traverse (Suc n) s p rootSchema st = Some r"
proof (induction n arbitrary: s p st r)
  case 0
  then show ?case by simp
next
  case (Suc n)
  note PIH = traverseProps_mono_step[where n=n and rootSchema=rootSchema, OF Suc.IH]
  show ?case
  proof (cases "s = JNull")
    case True
    with Suc.prems show ?thesis by (simp add: traverse_phases)
  next
    case False
    from Suc.prems False obtain x where x: "propertiesPhase n s p rootSchema st = Some x"
      by (auto simp: traverse_phases split: option.splits)
    then have x': "propertiesPhase (Suc n) s p rootSchema st = Some x"
      by (auto simp: propertiesPhase_def PIH split: if_splits)
    show ?thesis
    proof (cases x)
      case (Inl e)
      with x x' Suc.prems False show ?thesis by (auto simp: traverse_phases)
    next
      case (Inr st2)
      with x Suc.prems False have rp: "refPhase n s p rootSchema st2 = Some r"
        by (simp add: traverse_phases)
      have "refPhase (Suc n) s p rootSchema st2 = Some r"
      proof (cases "refChild rootSchema s")
        case Nil
        with rp show ?thesis using refPhase_fuel[of rootSchema s "Suc n" p st2 n] by simp
      next
        case (Cons t ts)
        with rp have "traverse n t p rootSchema st2 = Some r" by (simp add: refPhase_target)
        from Suc.IH[OF this] Cons show ?thesis by (simp add: refPhase_target)
      qed
      with Inr x' False show ?thesis by (simp add: traverse_phases)
    qed
  qed
qed

lemma traverse_mono:
  "traverse n s p rootSchema st = Some r \<Longrightarrow> n \<le> m \<Longrightarrow> traverse m s p rootSchema st = Some r"
  by (induction m) (auto simp: le_Suc_eq traverse_mono_Suc)


lemma traverseProps_returns:
  "(\<And>key p st. key \<in> set keys \<Longrightarrow> traverse n (the (getProp props key)) p rootSchema st \<noteq> None)
   \<Longrightarrow> traverseProps n props keys p rootSchema st \<noteq> None"
proof (induction keys arbitrary: st)
  case Nil
  then show ?case by simp
next
  case (Cons key keys)
  show ?case
  proof (cases "getProp props key")
    case None
    then show ?thesis by simp
  next
    case (Some child)
    with Cons.prems[of key "p @ [key]" st] obtain res where
      res: "traverse n child (p @ [key]) rootSchema st = Some res" by auto
    show ?thesis
    proof (cases res)
      case (Inl e)
      with res Some show ?thesis by simp
    next
      case (Inr st')
      have "traverseProps n props keys p rootSchema st' \<noteq> None"
        by (rule Cons.IH) (simp add: Cons.prems)
      with Inr res Some show ?thesis by simp
    qed
  qed
qed

section \<open>The traversal performs the declared writes\<close>

lemma applyWrites_Nil [simp]: "applyWrites cur [] = cur"
  by (simp add: applyWrites_def)

lemma applyWrites_Cons [simp]: "applyWrites cur (w # ws) = applyWrites (setDefault cur (fst w) (snd w)) ws"
  by (simp add: applyWrites_def)

lemma applyWrites_append [simp]: "applyWrites cur (ws @ ws') = applyWrites (applyWrites cur ws) ws'"
  by (simp add: applyWrites_def)

lemma writeDefault_applyWrites: "fst (writeDefault s p st) = applyWrites (fst st) (ownDefault s p)"
  by (simp add: writeDefault_def ownDefault_def split: option.splits)

lemma traverseProps_writes_step:
  assumes IH: "\<And>s p st st'. traverse n s p rootSchema st = Some (Inr st') \<Longrightarrow>
     \<exists>ws. declared n s p rootSchema = Some ws \<and> fst st' = applyWrites (fst st) ws"
  shows "traverseProps n props keys p rootSchema st = Some (Inr st') \<Longrightarrow>
     \<exists>ws. declaredProps n props keys p rootSchema = Some ws \<and> fst st' = applyWrites (fst st) ws"
proof (induction keys arbitrary: st)
  case Nil
  then show ?case by simp
next
  case (Cons key keys)
  from Cons.prems obtain child where child: "getProp props key = Some child"
    by (cases "getProp props key") auto
  from Cons.prems child obtain st1 where
    st1: "traverse n child (p @ [key]) rootSchema st = Some (Inr st1)"
    and rest: "traverseProps n props keys p rootSchema st1 = Some (Inr st')"
    by (auto split: option.splits sum.splits)
  from IH[OF st1] obtain here where
    here: "declared n child (p @ [key]) rootSchema = Some here" "fst st1 = applyWrites (fst st) here"
    by blast
  from Cons.IH[OF rest] obtain later where
    later: "declaredProps n props keys p rootSchema = Some later" "fst st' = applyWrites (fst st1) later"
    by blast
  from child here later show ?case by simp
qed

lemma refPhase_cases:
  assumes "refPhase n s p rootSchema st2 = Some (Inr st')"
  obtains (none) "refChild rootSchema s = []" "fst st' = fst st2"
  | (target) t where "refChild rootSchema s = [t]" "traverse n t p rootSchema st2 = Some (Inr st')"
proof (cases "refChild rootSchema s")
  case Nil
  from refPhase_no_target[OF Nil, of n p st2] assms have "fst st' = fst st2"
    by (auto simp: notFound_def)
  with Nil show ?thesis by (rule none)
next
  case (Cons t ts)
  then have "t \<in> set (refChild rootSchema s)" by simp
  then have one: "refChild rootSchema s = [t]" by (blast dest: refChild_target)
  moreover from Cons assms have "traverse n t p rootSchema st2 = Some (Inr st')"
    by (simp add: refPhase_target)
  ultimately show ?thesis by (rule target)
qed

lemma traverse_writes:
  "traverse n s p rootSchema st = Some (Inr st') \<Longrightarrow>
     \<exists>ws. declared n s p rootSchema = Some ws \<and> fst st' = applyWrites (fst st) ws"
proof (induction n arbitrary: s p st st')
  case 0
  then show ?case by simp
next
  case (Suc n)
  have PIH: "\<exists>ws. declaredProps n props keys p rootSchema = Some ws \<and> fst st' = applyWrites (fst st) ws"
    if "traverseProps n props keys p rootSchema st = Some (Inr st')" for props keys p st st'
    using Suc.IH that by (rule traverseProps_writes_step)
  from Suc.prems obtain st2 where
    pp: "propertiesPhase n s p rootSchema st = Some (Inr st2)"
    and rp: "refPhase n s p rootSchema st2 = Some (Inr st')"
    by (auto simp: traverse_phases split: if_splits option.splits sum.splits)
  define dp where "dp = (if truthyOpt (getProp s ''properties'')
            then declaredProps n (the (getProp s ''properties''))
                   (map fst (ownProps (the (getProp s ''properties'')))) p rootSchema
            else Some [])"
  have "\<exists>viaProps. dp = Some viaProps \<and> fst st2 = applyWrites (fst st) (ownDefault s p @ viaProps)"
  proof (cases "truthyOpt (getProp s ''properties'')")
    case True
    with pp have "traverseProps n (the (getProp s ''properties''))
             (map fst (ownProps (the (getProp s ''properties''))))
             p rootSchema (writeDefault s p st) = Some (Inr st2)"
      by (simp add: propertiesPhase_def)
    from PIH[OF this] True show ?thesis
      by (auto simp: dp_def writeDefault_applyWrites)
  next
    case False
    with pp show ?thesis
      by (auto simp: dp_def propertiesPhase_def writeDefault_applyWrites)
  qed
  then obtain viaProps where vp: "dp = Some viaProps"
    "fst st2 = applyWrites (fst st) (ownDefault s p @ viaProps)" by blast
  from rp show ?case
  proof (cases rule: refPhase_cases)
    case none
    with vp show ?thesis by (simp add: declared_Suc dp_def[symmetric])
  next
    case (target t)
    from Suc.IH[OF target(2)] obtain viaRef where
      "declared n t p rootSchema = Some viaRef" "fst st' = applyWrites (fst st2) viaRef" by blast
    with vp target(1) show ?thesis by (simp add: declared_Suc dp_def[symmetric])
  qed
qed

lemma applyWrites_frame:
  "(\<And>w. w \<in> set ws \<Longrightarrow> \<not> prefix p (fst w) \<and> \<not> prefix (fst w) p) \<Longrightarrow>
   getPath (JObj (applyWrites cur ws)) p = getPath (JObj cur) p"
proof (induction ws arbitrary: cur)
  case Nil
  then show ?case by simp
next
  case (Cons w ws)
  have "getPath (JObj (applyWrites (setDefault cur (fst w) (snd w)) ws)) p
        = getPath (JObj (setDefault cur (fst w) (snd w))) p"
    by (rule Cons.IH) (simp add: Cons.prems)
  also have "\<dots> = getPath (JObj cur) p"
    using Cons.prems[of w] by (simp add: getPath_setDefault_frame)
  finally show ?case by simp
qed

lemma applyWrites_holds:
  assumes "(q, d) \<in> set ws" and "q \<noteq> []"
    and "\<And>w. w \<in> set ws \<Longrightarrow> w = (q, d) \<or> (\<not> prefix q (fst w) \<and> \<not> prefix (fst w) q)"
  shows "getPath (JObj (applyWrites cur ws)) q = Some d"
  using assms
proof (induction ws arbitrary: cur)
  case Nil
  then show ?case by simp
next
  case (Cons w ws)
  show ?case
  proof (cases "(q, d) \<in> set ws")
    case True
    then have "getPath (JObj (applyWrites (setDefault cur (fst w) (snd w)) ws)) q = Some d"
      using Cons.prems by (intro Cons.IH) auto
    then show ?thesis by simp
  next
    case False
    with Cons.prems have w: "w = (q, d)" by auto
    have "getPath (JObj (applyWrites (setDefault cur q d) ws)) q
          = getPath (JObj (setDefault cur q d)) q"
    proof (rule applyWrites_frame)
      fix w' assume "w' \<in> set ws"
      with False Cons.prems(3)[of w'] show "\<not> prefix q (fst w') \<and> \<not> prefix (fst w') q"
        by auto
    qed
    also have "\<dots> = Some d" using \<open>q \<noteq> []\<close> by (rule getPath_setDefault_same)
    finally show ?thesis using w by simp
  qed
qed

lemma getPath_empty_object: "p \<noteq> [] \<Longrightarrow> getPath (JObj []) p = None"
  by (cases p) (simp_all add: getProp_JObj)

lemma applyWrites_nothing_else:
  assumes "p \<noteq> []" and "getPath (JObj (applyWrites [] ws)) p \<noteq> None"
  shows "\<exists>w \<in> set ws. prefix p (fst w) \<or> prefix (fst w) p"
proof (rule ccontr)
  assume "\<not> ?thesis"
  then have "getPath (JObj (applyWrites [] ws)) p = getPath (JObj []) p"
    by (intro applyWrites_frame) auto
  with assms show False by (simp add: getPath_empty_object)
qed

section \<open>Schemas without cycles are traversed to the end\<close>

lemma uniform_fuel_gen:
  assumes R: "\<not> R None"
    and ex: "\<And>c. c \<in> set cs \<Longrightarrow> \<exists>n. \<forall>p st. R (traverse n c p rootSchema st)"
  shows "\<exists>n. \<forall>c \<in> set cs. \<forall>p st. R (traverse n c p rootSchema st)"
  using ex
proof (induction cs)
  case Nil
  then show ?case by simp
next
  case (Cons c cs)
  then obtain n1 where n1: "\<forall>c' \<in> set cs. \<forall>p st. R (traverse n1 c' p rootSchema st)"
    by force
  from Cons.prems[of c] obtain n2 where n2: "\<forall>p st. R (traverse n2 c p rootSchema st)"
    by auto
  have "\<forall>c' \<in> set (c # cs). \<forall>p st. R (traverse (max n1 n2) c' p rootSchema st)"
  proof (intro ballI allI)
    fix c' p st
    assume "c' \<in> set (c # cs)"
    then consider "c' = c" | "c' \<in> set cs" by auto
    then obtain m where Rm: "R (traverse m c' p rootSchema st)" and m: "m \<le> max n1 n2"
    proof cases
      case 1
      with n2 have "R (traverse n2 c' p rootSchema st)" by blast
      then show ?thesis using that[of n2] by simp
    next
      case 2
      with n1 have "R (traverse n1 c' p rootSchema st)" by blast
      then show ?thesis using that[of n1] by simp
    qed
    from Rm R obtain r where r: "traverse m c' p rootSchema st = Some r"
      by (cases "traverse m c' p rootSchema st") auto
    from traverse_mono[OF r m] Rm r show "R (traverse (max n1 n2) c' p rootSchema st)"
      by simp
  qed
  then show ?case by blast
qed

lemma checkFrom_unfold:
  "checkFrom ok rootSchema anc s =
     (s \<notin> set anc \<and> ok s \<and> (\<forall>c \<in> set (callees rootSchema s). checkFrom ok rootSchema (s # anc) c))"
  by (subst checkFrom.simps) simp

lemma propChild_callee:
  assumes "truthyOpt (getProp s ''properties'')"
    and "key \<in> set (map fst (ownProps (the (getProp s ''properties''))))"
  shows "the (getProp (the (getProp s ''properties'')) key) \<in> set (callees rootSchema s)"
  using assms by (auto simp: callees_def propChildren_def)

lemma node_returns:
  assumes n: "\<forall>c \<in> set (callees rootSchema s). \<forall>p st. traverse n c p rootSchema st \<noteq> None"
  shows "traverse (Suc n) s p rootSchema st \<noteq> None"
proof (cases "s = JNull")
  case True
  then show ?thesis by (simp add: traverse_phases)
next
  case False
  have pp: "propertiesPhase n s p rootSchema st \<noteq> None"
  proof (cases "truthyOpt (getProp s ''properties'')")
    case True
    have "traverseProps n (the (getProp s ''properties''))
           (map fst (ownProps (the (getProp s ''properties''))))
           p rootSchema (writeDefault s p st) \<noteq> None"
    proof (rule traverseProps_returns)
      fix key p' st'
      assume "key \<in> set (map fst (ownProps (the (getProp s ''properties''))))"
      with True n show "traverse n (the (getProp (the (getProp s ''properties'')) key)) p' rootSchema st' \<noteq> None"
        using propChild_callee by blast
    qed
    with True show ?thesis by (simp add: propertiesPhase_def)
  next
    case False
    then show ?thesis by (simp add: propertiesPhase_def)
  qed
  have rp: "refPhase n s p rootSchema st2 \<noteq> None" for st2
  proof (cases "refChild rootSchema s")
    case Nil
    from refPhase_no_target[OF this, of n p st2] show ?thesis by auto
  next
    case (Cons t ts)
    then have "t \<in> set (callees rootSchema s)" by (simp add: callees_def)
    with n have "traverse n t p rootSchema st2 \<noteq> None" by blast
    with Cons show ?thesis by (simp add: refPhase_target)
  qed
  from pp obtain x where x: "propertiesPhase n s p rootSchema st = Some x" by auto
  show ?thesis
    using False x rp by (cases x) (simp_all add: traverse_phases)
qed

lemma traverseProps_returns_Inr:
  assumes "\<And>key p st. key \<in> set keys \<Longrightarrow>
     getProp props key \<noteq> None \<and> (\<exists>st'. traverse n (the (getProp props key)) p rootSchema st = Some (Inr st'))"
  shows "\<exists>st'. traverseProps n props keys p rootSchema st = Some (Inr st')"
  using assms
proof (induction keys arbitrary: st)
  case Nil
  then show ?case by simp
next
  case (Cons key keys)
  from Cons.prems[of key "p @ [key]" st] obtain child st1 where
    child: "getProp props key = Some child"
    and st1: "traverse n child (p @ [key]) rootSchema st = Some (Inr st1)" by auto
  have "\<exists>st'. traverseProps n props keys p rootSchema st1 = Some (Inr st')"
  proof (rule Cons.IH)
    fix k p' s'
    assume "k \<in> set keys"
    then have "k \<in> set (key # keys)" by simp
    then show "getProp props k \<noteq> None \<and>
        (\<exists>st'. traverse n (the (getProp props k)) p' rootSchema s' = Some (Inr st'))"
      by (rule Cons.prems)
  qed
  with child st1 show ?case by simp
qed

lemma ownProps_key_defined:
  "key \<in> set (map fst (ownProps v)) \<Longrightarrow> getProp v key \<noteq> None"
  unfolding getProp_def by (metis domIff dom_map_of_conv_image_fst list.set_map)

lemma node_returns_Inr:
  assumes n: "\<forall>c \<in> set (callees rootSchema s). \<forall>p st. \<exists>st'. traverse n c p rootSchema st = Some (Inr st')"
    and ok: "nodeOk s" and root: "rootSchema \<noteq> JNull"
  shows "\<exists>st'. traverse (Suc n) s p rootSchema st = Some (Inr st')"
proof -
  from ok have nn: "s \<noteq> JNull" by (simp add: nodeOk_def)
  have pp: "\<exists>st2. propertiesPhase n s p rootSchema st = Some (Inr st2)"
  proof (cases "truthyOpt (getProp s ''properties'')")
    case True
    have "\<exists>st2. traverseProps n (the (getProp s ''properties''))
           (map fst (ownProps (the (getProp s ''properties''))))
           p rootSchema (writeDefault s p st) = Some (Inr st2)"
    proof (rule traverseProps_returns_Inr)
      fix key p' st'
      assume k: "key \<in> set (map fst (ownProps (the (getProp s ''properties''))))"
      with True n have "\<exists>st''. traverse n (the (getProp (the (getProp s ''properties'')) key)) p' rootSchema st' = Some (Inr st'')"
        using propChild_callee by blast
      with k show "getProp (the (getProp s ''properties'')) key \<noteq> None \<and>
         (\<exists>st''. traverse n (the (getProp (the (getProp s ''properties'')) key)) p' rootSchema st' = Some (Inr st''))"
        using ownProps_key_defined by blast
    qed
    with True show ?thesis by (simp add: propertiesPhase_def)
  next
    case False
    then show ?thesis by (simp add: propertiesPhase_def)
  qed
  have rp: "\<exists>st'. refPhase n s p rootSchema st2 = Some (Inr st')" for st2
  proof (cases "refChild rootSchema s")
    case (Cons t ts)
    then have "t \<in> set (callees rootSchema s)" by (simp add: callees_def)
    with n have "\<exists>st'. traverse n t p rootSchema st2 = Some (Inr st')" by blast
    with Cons show ?thesis by (simp add: refPhase_target)
  next
    case Nil
    show ?thesis
    proof (cases "truthyOpt (getProp s ''$ref'')")
      case True
      then obtain v where v: "getProp s ''$ref'' = Some v" "truthy v" by (auto dest: truthyOpt_Some)
      with ok obtain r where r: "v = JStr r" by (cases v) (auto simp: nodeOk_def)
      from Nil True v r have "\<not> truthyLookup (resolveRef rootSchema r) \<or> resolveRef rootSchema r = Builtin"
        by (cases "resolveRef rootSchema r") (auto simp: refChild_def split: if_splits)
      with True v r root show ?thesis
        by (cases "resolveRef rootSchema r") (auto simp: refPhase_def)
    next
      case False
      then show ?thesis by (simp add: refPhase_def)
    qed
  qed
  from pp obtain st2 where "propertiesPhase n s p rootSchema st = Some (Inr st2)" by blast
  with nn rp[of st2] show ?thesis by (simp add: traverse_phases)
qed

lemma acyclicFrom_returns:
  "checkFrom ok rootSchema anc s \<Longrightarrow> \<exists>n. \<forall>p st. traverse n s p rootSchema st \<noteq> None"
proof (induction ok rootSchema anc s rule: checkFrom.induct)
  case (1 ok rootSchema anc s)
  from "1.prems" have notin: "s \<notin> set anc"
    and sub: "\<And>c. c \<in> set (callees rootSchema s) \<Longrightarrow> checkFrom ok rootSchema (s # anc) c"
    using checkFrom_unfold[of ok rootSchema anc s] by blast+
  have "\<And>c. c \<in> set (callees rootSchema s) \<Longrightarrow> \<exists>n. \<forall>p st. traverse n c p rootSchema st \<noteq> None"
    using "1.IH"[OF notin _ sub] by blast
  then obtain n where "\<forall>c \<in> set (callees rootSchema s). \<forall>p st. traverse n c p rootSchema st \<noteq> None"
    using uniform_fuel_gen[where R="\<lambda>r. r \<noteq> None"] by blast
  then have "\<forall>p st. traverse (Suc n) s p rootSchema st \<noteq> None"
    using node_returns by blast
  then show ?case by blast
qed

lemma schemaTree_returns:
  "checkFrom ok rootSchema anc s \<Longrightarrow> (\<And>v. ok v \<Longrightarrow> nodeOk v) \<Longrightarrow> rootSchema \<noteq> JNull \<Longrightarrow>
   \<exists>n. \<forall>p st. \<exists>st'. traverse n s p rootSchema st = Some (Inr st')"
proof (induction ok rootSchema anc s rule: checkFrom.induct)
  case (1 ok rootSchema anc s)
  from "1.prems"(1) have notin: "s \<notin> set anc" and oks: "ok s"
    and sub: "\<And>c. c \<in> set (callees rootSchema s) \<Longrightarrow> checkFrom ok rootSchema (s # anc) c"
    using checkFrom_unfold[of ok rootSchema anc s] by blast+
  from oks have ok: "nodeOk s" by (rule "1.prems"(2))
  have "\<And>c. c \<in> set (callees rootSchema s) \<Longrightarrow>
      \<exists>n. \<forall>p st. \<exists>st'. traverse n c p rootSchema st = Some (Inr st')"
    using "1.IH"[OF notin _ sub "1.prems"(2,3)] by blast
  then obtain n where "\<forall>c \<in> set (callees rootSchema s). \<forall>p st.
      \<exists>st'. traverse n c p rootSchema st = Some (Inr st')"
    using uniform_fuel_gen[where R="\<lambda>r. \<exists>st'. r = Some (Inr st')"] by blast
  then have "\<forall>p st. \<exists>st'. traverse (Suc n) s p rootSchema st = Some (Inr st')"
    using node_returns_Inr[OF _ ok "1.prems"(3)] by blast
  then show ?case by blast
qed

text \<open>
  C8. A schema whose traversal calls never lead back to a node among its own ancestors
  (no \<open>$ref\<close> cycle reachable from the root) is traversed in finitely many steps: from some
  amount of fuel on, default extraction returns, and always the same result.
\<close>

theorem traverse_terminates:
  assumes "acyclicFrom schema [] schema"
  shows "\<exists>n r. \<forall>m \<ge> n. extractDefaultsFromSchema m schema = Some r"
proof -
  from assms have "checkFrom (\<lambda>v. True) schema [] schema" by (simp add: acyclicFrom_def)
  from acyclicFrom_returns[OF this] obtain n where
    "\<forall>p st. traverse n schema p schema st \<noteq> None" by blast
  then obtain t where t: "traverse n schema [] schema ([], []) = Some t" by blast
  have "\<forall>m \<ge> n. traverse m schema [] schema ([], []) = Some t"
    using traverse_mono[OF t] by blast
  then have "\<forall>m \<ge> n. extractDefaultsFromSchema m schema =
      Some (case t of Inl e \<Rightarrow> Inl e | Inr st \<Rightarrow> Inr (JObj (fst st), snd st))"
    by (auto simp: extractDefaultsFromSchema_def split: sum.splits)
  then show ?thesis by blast
qed

lemma scenario_acyclic: "acyclicFrom scenarioSchema [] scenarioSchema"
  by (simp add: acyclicFrom_def checkFrom.simps scenarioSchema_def callees_def propChildren_def refChild_def
      getProp_def resolveRef_def defsOf_def refPath_def stripDefsPrefix_def)

theorem traverse_terminates_witness:
  "acyclicFrom scenarioSchema [] scenarioSchema \<and>
   (\<exists>n r. \<forall>m \<ge> n. extractDefaultsFromSchema m scenarioSchema = Some r)"
  using traverse_terminates[OF scenario_acyclic] scenario_acyclic by blast

section \<open>Frame property of the writes\<close>





















section \<open>The extracted document and the declared defaults\<close>

lemma extract_Inr_iff:
  "extractDefaultsFromSchema n schema = Some (Inr (doc, diags)) \<longleftrightarrow>
   (\<exists>st. traverse n schema [] schema ([], []) = Some (Inr st) \<and> doc = JObj (fst st) \<and> diags = snd st)"
  by (auto simp: extractDefaultsFromSchema_def split: option.splits sum.splits)

lemma schemaTree_extract_returns:
  assumes "schemaTree schema"
  shows "\<exists>n r. \<forall>m \<ge> n. extractDefaultsFromSchema m schema = Some (Inr r)"
proof -
  from assms have chk: "checkFrom (treeNode schema) schema [] schema" by (simp add: schemaTree_def)
  then have "treeNode schema schema"
    using checkFrom_unfold[of "treeNode schema" schema "[]" schema] by blast
  then have nn: "schema \<noteq> JNull" by (simp add: treeNode_def nodeOk_def)
  have "\<exists>n. \<forall>p st. \<exists>st'. traverse n schema p schema st = Some (Inr st')"
    using chk _ nn by (rule schemaTree_returns) (simp add: treeNode_def)
  then obtain n st where
    t: "traverse n schema [] schema ([], []) = Some (Inr st)" by blast
  have "\<forall>m \<ge> n. extractDefaultsFromSchema m schema = Some (Inr (JObj (fst st), snd st))"
    using traverse_mono[OF t] by (simp add: extractDefaultsFromSchema_def)
  then show ?thesis by blast
qed

lemma setProp_same: "map_of kvs k = Some v \<Longrightarrow> setProp kvs k v = kvs"
  by (induction kvs) (auto split: if_splits)

lemma holdsThrough_noop:
  "holdsThrough (JObj kvs) rest d' \<Longrightarrow> rest \<noteq> [] \<Longrightarrow> setDefault kvs rest d' = kvs"
proof (induction kvs rest d' rule: setDefault.induct)
  case (1 cur v)
  then show ?case by simp
next
  case (2 cur k v)
  then show ?case by (auto simp: setProp_same split: option.splits)
next
  case (3 cur k k' ks v)
  from "3.prems"(1) obtain c where c: "map_of cur k = Some c" "holdsThrough c (k' # ks) v"
    by (auto split: option.splits)
  from c(2) obtain kvs' where kvs': "c = JObj kvs'" by (cases c) auto
  with c have child: "childEntries cur k = kvs'" by (simp add: childEntries_def)
  have "setDefault kvs' (k' # ks) v = kvs'"
    using "3.IH"[of kvs'] c kvs' by simp
  with child c kvs' show ?case
    by (simp only: setDefault_Cons2) (simp add: setProp_same)
qed

lemma getPath_append:
  "getPath v (p @ q) = (case getPath v p of None \<Rightarrow> None | Some c \<Rightarrow> getPath c q)"
  by (induction p arbitrary: v) (auto split: option.splits)

lemma write_below_keeps:
  "getPath (JObj cur) q = Some d \<Longrightarrow> q \<noteq> [] \<Longrightarrow> holdsThrough d rest d' \<Longrightarrow>
   getPath (JObj (setDefault cur (q @ rest) d')) q = Some d"
proof (induction q arbitrary: cur)
  case Nil
  then show ?case by simp
next
  case (Cons k q)
  show ?case
  proof (cases q)
    case Nil
    with Cons.prems have look: "map_of cur k = Some d" by (simp add: getProp_JObj split: option.splits)
    show ?thesis
    proof (cases rest)
      case Nil
      with Cons.prems \<open>q = []\<close> show ?thesis by (simp add: getProp_JObj map_of_setProp)
    next
      case (Cons r rs)
      with Cons.prems(3) obtain kvs where kvs: "d = JObj kvs" by (cases d) auto
      with look have child: "childEntries cur k = kvs" by (simp add: childEntries_def)
      have "setDefault kvs (r # rs) d' = kvs"
        using Cons.prems(3) kvs Cons by (intro holdsThrough_noop) simp_all
      with child kvs \<open>q = []\<close> Cons show ?thesis
        by (simp only: append_Cons append_Nil setDefault_Cons2 getPath_Cons_JObj map_of_setProp) simp
    qed
  next
    case (Cons k2 q2)
    have "q \<noteq> []" using Cons by simp
    then have "getPath (JObj (childEntries cur k)) q = getPath (JObj cur) (k # q)"
      by (rule getPath_childEntries)
    with Cons.prems(1) have "getPath (JObj (childEntries cur k)) q = Some d" by simp
    then have "getPath (JObj (setDefault (childEntries cur k) (q @ rest) d')) q = Some d"
      using Cons Cons.prems(3) by (intro Cons.IH) simp_all
    then have ih: "getPath (JObj (setDefault (childEntries cur k) (k2 # q2 @ rest) d')) q = Some d"
      using Cons by simp
    have "setDefault cur ((k # q) @ rest) d'
        = setProp cur k (JObj (setDefault (childEntries cur k) (k2 # q2 @ rest) d'))"
      using Cons by (simp only: append_Cons setDefault_Cons2)
    then show ?thesis using ih by (simp add: getProp_JObj map_of_setProp)
  qed
qed

lemma write_above_restores:
  "q' \<noteq> [] \<Longrightarrow> getPath (JObj (setDefault cur q' d')) (q' @ rest) = getPath d' rest"
  by (simp add: getPath_append getPath_setDefault_same)

lemma agree_keeps:
  assumes "getPath (JObj cur) q = Some d" and "q \<noteq> []" and "fst w' \<noteq> []" and "agree (q, d) w'"
  shows "getPath (JObj (setDefault cur (fst w') (snd w'))) q = Some d"
proof (cases "prefix q (fst w')")
  case True
  then have eq: "fst w' = q @ drop (length q) (fst w')" by (auto simp: prefix_def)
  from True assms(4) have "holdsThrough d (drop (length q) (fst w')) (snd w')"
    by (simp add: agree_def)
  with assms(1,2) have "getPath (JObj (setDefault cur (q @ drop (length q) (fst w')) (snd w'))) q = Some d"
    by (rule write_below_keeps)
  with eq show ?thesis by simp
next
  case False
  show ?thesis
  proof (cases "prefix (fst w') q")
    case True
    then have eq: "q = fst w' @ drop (length (fst w')) q" by (auto simp: prefix_def)
    from True False assms(4) have "getPath (snd w') (drop (length (fst w')) q) = Some d"
      by (simp add: agree_def)
    moreover have "getPath (JObj (setDefault cur (fst w') (snd w'))) (fst w' @ drop (length (fst w')) q)
        = getPath (snd w') (drop (length (fst w')) q)"
      using assms(3) by (rule write_above_restores)
    ultimately show ?thesis using eq by simp
  next
    case F2: False
    with False assms(1) show ?thesis by (simp add: getPath_setDefault_frame)
  qed
qed

lemma agreeing_writes_keep:
  "getPath (JObj cur) q = Some d \<Longrightarrow> q \<noteq> [] \<Longrightarrow>
   (\<And>w'. w' \<in> set ws \<Longrightarrow> fst w' \<noteq> [] \<and> agree (q, d) w') \<Longrightarrow>
   getPath (JObj (applyWrites cur ws)) q = Some d"
proof (induction ws arbitrary: cur)
  case Nil
  then show ?case by simp
next
  case (Cons w ws)
  have "getPath (JObj (setDefault cur (fst w) (snd w))) q = Some d"
    using Cons.prems(1,2) Cons.prems(3)[of w] by (intro agree_keeps) simp_all
  then have "getPath (JObj (applyWrites (setDefault cur (fst w) (snd w)) ws)) q = Some d"
    using Cons.prems(2) by (rule Cons.IH) (simp add: Cons.prems(3))
  then show ?case by simp
qed

lemma compatible_nonempty: "compatible ws \<Longrightarrow> w \<in> set ws \<Longrightarrow> fst w \<noteq> []"
  by (induction ws) auto

lemma compatible_holds:
  "compatible ws \<Longrightarrow> w \<in> set ws \<Longrightarrow> getPath (JObj (applyWrites cur ws)) (fst w) = Some (snd w)"
proof (induction ws arbitrary: cur)
  case Nil
  then show ?case by simp
next
  case (Cons w0 ws)
  show ?case
  proof (cases "w \<in> set ws")
    case True
    with Cons.prems have "getPath (JObj (applyWrites (setDefault cur (fst w0) (snd w0)) ws)) (fst w) = Some (snd w)"
      by (intro Cons.IH) simp_all
    then show ?thesis by simp
  next
    case False
    with Cons.prems have w: "w = w0" by simp
    from Cons.prems(1) have ne: "fst w0 \<noteq> []" and ag: "\<And>w'. w' \<in> set ws \<Longrightarrow> agree w0 w'"
      and comp: "compatible ws" by simp_all
    have "getPath (JObj (setDefault cur (fst w0) (snd w0))) (fst w0) = Some (snd w0)"
      using ne by (rule getPath_setDefault_same)
    then have "getPath (JObj (applyWrites (setDefault cur (fst w0) (snd w0)) ws)) (fst w0) = Some (snd w0)"
      using ne
    proof (rule agreeing_writes_keep)
      fix w' assume "w' \<in> set ws"
      with ag comp show "fst w' \<noteq> [] \<and> agree (fst w0, snd w0) w'"
        by (simp add: compatible_nonempty)
    qed
    with w show ?thesis by simp
  qed
qed

lemma nested_values_agree:
  assumes "getPath doc q = Some d" and "getPath doc q' = Some d'" and "prefix q q'"
  shows "getPath d (drop (length q) q') = Some d'"
proof -
  from assms(3) have "q' = q @ drop (length q) q'" by (auto simp: prefix_def)
  then have "getPath doc q' = (case getPath doc q of None \<Rightarrow> None
      | Some c \<Rightarrow> getPath c (drop (length q) q'))"
    using getPath_append[of doc q "drop (length q) q'"] by simp
  with assms(1,2) show ?thesis by simp
qed

lemma extract_writes:
  assumes ret: "extractDefaultsFromSchema n schema = Some (Inr (doc, diags))"
  shows "\<exists>ws. declared n schema [] schema = Some ws \<and> doc = JObj (applyWrites [] ws)"
proof -
  from ret obtain st where t: "traverse n schema [] schema ([], []) = Some (Inr st)"
    and doc: "doc = JObj (fst st)" by (auto simp: extract_Inr_iff)
  from traverse_writes[OF t] doc show ?thesis by auto
qed

lemmas tree_defs = schemaTree_def treeNode_def nodeOk_def modelledRef_def digits_def

text \<open>
  C2 (as amended). For every schema tree (no \<open>$ref\<close> cycle, no node on which the traversal
  throws, every reference resolved by modelled reads), default extraction returns a
  document from some amount of fuel on. Let \<open>ws\<close> be the declared defaults in the order of
  the traversal, with no \<open>__proto__\<close> segment in their paths. The document holds at every
  path what the result of writing them one after the other holds there. Every path
  present in it is a prefix or an extension of a declared path. When the declarations
  are compatible (none at the root, and any two at nested or equal paths agree), the
  document holds at each declared path its declared value. Conversely, when the document
  holds at each declared path its declared value, a value declared above another
  contains it at the relative path.
\<close>

theorem extract_declared_exact:
  assumes "schemaTree schema"
  shows "(\<exists>n r. \<forall>m \<ge> n. extractDefaultsFromSchema m schema = Some (Inr r)) \<and>
         (\<forall>n doc diags. extractDefaultsFromSchema n schema = Some (Inr (doc, diags)) \<longrightarrow>
            (\<exists>ws. declared n schema [] schema = Some ws \<and>
               ((\<forall>w \<in> set ws. plainPath (fst w)) \<longrightarrow>
                  (\<forall>q. getPath doc q = getPath (JObj (applyWrites [] ws)) q) \<and>
                  (\<forall>q. q \<noteq> [] \<longrightarrow> getPath doc q \<noteq> None \<longrightarrow>
                       (\<exists>w \<in> set ws. prefix q (fst w) \<or> prefix (fst w) q)) \<and>
                  (compatible ws \<longrightarrow> (\<forall>w \<in> set ws. getPath doc (fst w) = Some (snd w))) \<and>
                  ((\<forall>w \<in> set ws. getPath doc (fst w) = Some (snd w)) \<longrightarrow>
                     (\<forall>w \<in> set ws. \<forall>w' \<in> set ws. prefix (fst w) (fst w') \<longrightarrow>
                        getPath (snd w) (drop (length (fst w)) (fst w')) = Some (snd w'))))))"
proof (intro conjI allI impI)
  show "\<exists>n r. \<forall>m \<ge> n. extractDefaultsFromSchema m schema = Some (Inr r)"
    using assms by (rule schemaTree_extract_returns)
next
  fix n doc diags
  assume ret: "extractDefaultsFromSchema n schema = Some (Inr (doc, diags))"
  from extract_writes[OF ret] obtain ws where
    ws: "declared n schema [] schema = Some ws" and doc: "doc = JObj (applyWrites [] ws)" by blast
  have else: "\<forall>q. q \<noteq> [] \<longrightarrow> getPath doc q \<noteq> None \<longrightarrow>
                   (\<exists>w \<in> set ws. prefix q (fst w) \<or> prefix (fst w) q)"
    using applyWrites_nothing_else[of _ ws] doc by auto
  have holds: "\<forall>w \<in> set ws. getPath doc (fst w) = Some (snd w)" if "compatible ws"
    using that doc by (simp add: compatible_holds)
  have nec: "\<forall>w \<in> set ws. \<forall>w' \<in> set ws. prefix (fst w) (fst w') \<longrightarrow>
                getPath (snd w) (drop (length (fst w)) (fst w')) = Some (snd w')"
    if "\<forall>w \<in> set ws. getPath doc (fst w) = Some (snd w)"
    using that nested_values_agree[of doc] by blast
  from doc have same: "\<forall>q. getPath doc q = getPath (JObj (applyWrites [] ws)) q" by simp
  from ws same else holds nec
  show "\<exists>ws. declared n schema [] schema = Some ws \<and>
               ((\<forall>w \<in> set ws. plainPath (fst w)) \<longrightarrow>
                  (\<forall>q. getPath doc q = getPath (JObj (applyWrites [] ws)) q) \<and>
                  (\<forall>q. q \<noteq> [] \<longrightarrow> getPath doc q \<noteq> None \<longrightarrow>
                       (\<exists>w \<in> set ws. prefix q (fst w) \<or> prefix (fst w) q)) \<and>
                  (compatible ws \<longrightarrow> (\<forall>w \<in> set ws. getPath doc (fst w) = Some (snd w))) \<and>
                  ((\<forall>w \<in> set ws. getPath doc (fst w) = Some (snd w)) \<longrightarrow>
                     (\<forall>w \<in> set ws. \<forall>w' \<in> set ws. prefix (fst w) (fst w') \<longrightarrow>
                        getPath (snd w) (drop (length (fst w)) (fst w')) = Some (snd w'))))"
    by blast
qed

lemma agreeing_tree: "schemaTree agreeingSchema"
  by (simp add: agreeingSchema_def tree_defs eval_defs)

lemma agreeing_extract:
  "extractDefaultsFromSchema 4 agreeingSchema
     = Some (Inr (JObj [(''a'', JObj [(''x'', JNum 1)]), (''b'', JNum 2)], []))"
  by (simp add: eval_nat_numeral agreeingSchema_def eval_defs)

lemma agreeing_declared:
  "declared 4 agreeingSchema [] agreeingSchema
     = Some [([''a''], JObj [(''x'', JNum 1)]), ([''a'', ''x''], JNum 1), ([''b''], JNum 2)]"
  by (simp add: eval_nat_numeral agreeingSchema_def eval_defs)

theorem extract_declared_exact_witness:
  "schemaTree agreeingSchema \<and>
   extractDefaultsFromSchema 4 agreeingSchema
     = Some (Inr (JObj [(''a'', JObj [(''x'', JNum 1)]), (''b'', JNum 2)], [])) \<and>
   declared 4 agreeingSchema [] agreeingSchema
     = Some [([''a''], JObj [(''x'', JNum 1)]), ([''a'', ''x''], JNum 1), ([''b''], JNum 2)] \<and>
   plainPath [''a''] \<and> plainPath [''a'', ''x''] \<and> plainPath [''b''] \<and>
   compatible [([''a''], JObj [(''x'', JNum 1)]), ([''a'', ''x''], JNum 1), ([''b''], JNum 2)] \<and>
   getPath (JObj [(''a'', JObj [(''x'', JNum 1)]), (''b'', JNum 2)]) [''a''] = Some (JObj [(''x'', JNum 1)]) \<and>
   getPath (JObj [(''a'', JObj [(''x'', JNum 1)]), (''b'', JNum 2)]) [''a'', ''x''] = Some (JNum 1) \<and>
   getPath (JObj [(''a'', JObj [(''x'', JNum 1)]), (''b'', JNum 2)]) [''b''] = Some (JNum 2) \<and>
   prefix [''a''] [''a'', ''x''] \<and>
   getPath (JObj [(''x'', JNum 1)]) (drop (length [''a'']) [''a'', ''x'']) = Some (JNum 1)"
proof -
  let ?ws = "[([''a''], JObj [(''x'', JNum 1)]), ([''a'', ''x''], JNum 1), ([''b''], JNum 2)]"
  let ?doc = "JObj [(''a'', JObj [(''x'', JNum 1)]), (''b'', JNum 2)]"
  have plain: "\<forall>w \<in> set ?ws. plainPath (fst w)" by (simp add: plainPath_def)
  have comp: "compatible ?ws" by (simp add: agree_def)
  from extract_declared_exact[OF agreeing_tree] agreeing_extract
  obtain ws where ws: "declared 4 agreeingSchema [] agreeingSchema = Some ws"
    and imp: "(\<forall>w \<in> set ws. plainPath (fst w)) \<longrightarrow>
        (compatible ws \<longrightarrow> (\<forall>w \<in> set ws. getPath ?doc (fst w) = Some (snd w))) \<and>
        ((\<forall>w \<in> set ws. getPath ?doc (fst w) = Some (snd w)) \<longrightarrow>
           (\<forall>w \<in> set ws. \<forall>w' \<in> set ws. prefix (fst w) (fst w') \<longrightarrow>
              getPath (snd w) (drop (length (fst w)) (fst w')) = Some (snd w')))"
    by blast
  from ws agreeing_declared have eq: "ws = ?ws" by simp
  with imp plain comp have all: "\<forall>w \<in> set ?ws. getPath ?doc (fst w) = Some (snd w)" by blast
  then have g: "getPath ?doc [''a''] = Some (JObj [(''x'', JNum 1)])"
    "getPath ?doc [''a'', ''x''] = Some (JNum 1)"
    "getPath ?doc [''b''] = Some (JNum 2)"
    by simp_all
  from imp plain all eq
  have "\<forall>w \<in> set ?ws. \<forall>w' \<in> set ?ws. prefix (fst w) (fst w') \<longrightarrow>
      getPath (snd w) (drop (length (fst w)) (fst w')) = Some (snd w')"
    by blast
  then have nested: "prefix [''a''] [''a'', ''x''] \<and>
      getPath (JObj [(''x'', JNum 1)]) (drop (length [''a'']) [''a'', ''x'']) = Some (JNum 1)"
    by simp
  have p: "plainPath [''a'']" "plainPath [''a'', ''x'']" "plainPath [''b'']"
    by (simp_all add: plainPath_def)
  from agreeing_tree agreeing_extract agreeing_declared p comp g nested show ?thesis by blast
qed

text \<open>
  The claim as stated has no such condition, and a declared default can be missing: a
  default \<open>7\<close> declared at \<open>["a"]\<close> is replaced by the object that the default declared
  below it at \<open>["a","b"]\<close> needs.
\<close>

theorem nested_default_lost_counterexample:
  "schemaTree nestedSchema \<and>
   declared 3 nestedSchema [] nestedSchema = Some [([''a''], JNum 7), ([''a'', ''b''], JNum 5)] \<and>
   extractDefaultsFromSchema 3 nestedSchema = Some (Inr (JObj [(''a'', JObj [(''b'', JNum 5)])], [])) \<and>
   getPath (JObj [(''a'', JObj [(''b'', JNum 5)])]) [''a''] \<noteq> Some (JNum 7)"
  by (simp add: eval_nat_numeral nestedSchema_def tree_defs eval_defs)

section \<open>Order of the traversal and unresolved references\<close>

lemma refPhase_resolved:
  assumes "getProp schema ''$ref'' = Some (JStr r)" and "r \<noteq> []"
    and "resolveRef rootSchema r = Value t" and "truthy t"
  shows "refPhase n schema path rootSchema st2 = traverse n t path rootSchema st2"
proof -
  from assms(3) have "rootSchema \<noteq> JNull" by auto
  with assms show ?thesis by (simp add: refPhase_def)
qed

lemma has_prop_not_null: "getProp s k = Some v \<Longrightarrow> s \<noteq> JNull"
  by (auto simp: getProp_def)

text \<open>
  C3. A node with both \<open>properties\<close> and a \<open>$ref\<close> that resolves to a truthy schema \<open>t\<close> is
  traversed in this order: its own default, its properties, then \<open>t\<close> at the same path,
  starting from the state the properties left. Hence a default that the target declares
  at a path (without a \<open>__proto__\<close> segment) is the value found there afterwards, whatever
  the properties wrote (provided the target's other declarations do not overwrite it in
  turn). The scenario of the specification yields exactly \<open>{x: 1, y: 2}\<close>.
\<close>

theorem ref_after_properties:
  assumes ref: "getProp schema ''$ref'' = Some (JStr r)" and r: "r \<noteq> []"
    and tgt: "resolveRef rootSchema r = Value t" and tt: "truthy t"
    and props: "truthyOpt (getProp schema ''properties'')"
  shows "traverse (Suc n) schema path rootSchema st =
           (case traverseProps n (the (getProp schema ''properties''))
                   (map fst (ownProps (the (getProp schema ''properties''))))
                   path rootSchema (writeDefault schema path st) of
              None \<Rightarrow> None
            | Some (Inl e) \<Rightarrow> Some (Inl e)
            | Some (Inr st2) \<Rightarrow> traverse n t path rootSchema st2)
         \<and> (\<forall>st' viaRef q d.
               traverse (Suc n) schema path rootSchema st = Some (Inr st') \<longrightarrow>
               declared n t path rootSchema = Some viaRef \<longrightarrow>
               (q, d) \<in> set viaRef \<longrightarrow> q \<noteq> [] \<longrightarrow> plainPath q \<longrightarrow>
               (\<forall>w \<in> set viaRef. w = (q, d) \<or> (\<not> prefix q (fst w) \<and> \<not> prefix (fst w) q)) \<longrightarrow>
               getPath (JObj (fst st')) q = Some d)
         \<and> extractDefaultsFromSchema 3 scenarioSchema
             = Some (Inr (JObj [(''x'', JNum 1), (''y'', JNum 2)], []))"
proof (intro conjI allI impI)
  have nn: "schema \<noteq> JNull" using ref by (rule has_prop_not_null)
  have rp: "refPhase n schema path rootSchema st2 = traverse n t path rootSchema st2" for st2
    using ref r tgt tt by (rule refPhase_resolved)
  show seq: "traverse (Suc n) schema path rootSchema st =
           (case traverseProps n (the (getProp schema ''properties''))
                   (map fst (ownProps (the (getProp schema ''properties''))))
                   path rootSchema (writeDefault schema path st) of
              None \<Rightarrow> None
            | Some (Inl e) \<Rightarrow> Some (Inl e)
            | Some (Inr st2) \<Rightarrow> traverse n t path rootSchema st2)"
    using nn props by (simp add: traverse_phases propertiesPhase_def rp split: option.splits sum.splits)
  show "extractDefaultsFromSchema 3 scenarioSchema
             = Some (Inr (JObj [(''x'', JNum 1), (''y'', JNum 2)], []))"
    by (simp add: eval_nat_numeral scenarioSchema_def eval_defs)
  fix st' viaRef q d
  assume ret: "traverse (Suc n) schema path rootSchema st = Some (Inr st')"
    and decl: "declared n t path rootSchema = Some viaRef"
    and mem: "(q, d) \<in> set viaRef" and q: "q \<noteq> []"
    and sep: "\<forall>w \<in> set viaRef. w = (q, d) \<or> (\<not> prefix q (fst w) \<and> \<not> prefix (fst w) q)"
  from ret seq obtain st2 where
    "traverse n t path rootSchema st2 = Some (Inr st')"
    by (auto split: option.splits sum.splits)
  from traverse_writes[OF this] decl have "fst st' = applyWrites (fst st2) viaRef" by auto
  moreover have "getPath (JObj (applyWrites (fst st2) viaRef)) q = Some d"
    using mem q sep by (intro applyWrites_holds) auto
  ultimately show "getPath (JObj (fst st')) q = Some d" by simp
qed

theorem ref_after_properties_witness:
  "getProp overrideSchema ''$ref'' = Some (JStr ''#/$defs/R'') \<and> ''#/$defs/R'' \<noteq> [] \<and>
   resolveRef overrideSchema ''#/$defs/R''
     = Value (JObj [(''properties'', JObj [(''k'', JObj [(''default'', JNum 2)])])]) \<and>
   truthy (JObj [(''properties'', JObj [(''k'', JObj [(''default'', JNum 2)])])]) \<and>
   truthyOpt (getProp overrideSchema ''properties'') \<and>
   traverse (Suc 2) overrideSchema [] overrideSchema ([], []) = Some (Inr ([(''k'', JNum 2)], [])) \<and>
   declared 2 (JObj [(''properties'', JObj [(''k'', JObj [(''default'', JNum 2)])])]) [] overrideSchema
     = Some [([''k''], JNum 2)] \<and>
   plainPath [''k''] \<and>
   getPath (JObj (fst ([(''k'', JNum 2)], [] :: string list))) [''k''] = Some (JNum 2)"
proof -
  let ?t = "JObj [(''properties'', JObj [(''k'', JObj [(''default'', JNum 2)])])]"
  have h1: "getProp overrideSchema ''$ref'' = Some (JStr ''#/$defs/R'')"
    by (simp add: overrideSchema_def eval_defs)
  have h2: "''#/$defs/R'' \<noteq> []" by simp
  have h3: "resolveRef overrideSchema ''#/$defs/R'' = Value ?t"
    by (simp add: overrideSchema_def eval_defs)
  have h4: "truthy ?t" by simp
  have h5: "truthyOpt (getProp overrideSchema ''properties'')"
    by (simp add: overrideSchema_def eval_defs)
  have h6: "plainPath [''k'']" by (simp add: plainPath_def)
  have t: "traverse (Suc 2) overrideSchema [] overrideSchema ([], []) = Some (Inr ([(''k'', JNum 2)], []))"
    by (simp add: eval_nat_numeral overrideSchema_def eval_defs)
  have d: "declared 2 ?t [] overrideSchema = Some [([''k''], JNum 2)]"
    by (simp add: eval_nat_numeral overrideSchema_def eval_defs)
  from ref_after_properties[OF h1 h2 h3 h4 h5, of 2 "[]" "([], [])"] t d h6
  have "getPath (JObj (fst ([(''k'', JNum 2)], [] :: string list))) [''k''] = Some (JNum 2)"
    by simp
  with h1 h2 h3 h4 h5 h6 t d show ?thesis by blast
qed




section \<open>A default declared at the root\<close>

lemma applyWrites_target:
  "applyWrites cur (map (\<lambda>w. (target (fst w), snd w)) ws) = applyWrites cur ws"
proof (induction ws arbitrary: cur)
  case Nil
  then show ?case by simp
next
  case (Cons w ws)
  have "setDefault cur (target (fst w)) (snd w) = setDefault cur (fst w) (snd w)"
    by (simp add: target_def)
  with Cons.IH show ?case by simp
qed

lemma own_default_first:
  assumes "getProp s ''default'' = Some d" and "declared n s p rootSchema = Some ws"
  shows "\<exists>later. ws = (p, d) # later"
proof -
  from assms(2) obtain m where n: "n = Suc m" by (cases n) auto
  from assms(1) have own: "ownDefault s p = [(p, d)]" by (simp add: ownDefault_def)
  from assms(2) show ?thesis
    unfolding n declared_Suc own
    by (auto split: option.splits list.splits if_splits)
qed

text \<open>
  C10 (as amended). The write of a root-level default \<open>d\<close> stores it under the key
  \<open>undefined\<close>, and the root's own default is the first declaration visited. When every
  declaration visited after it agrees with \<open>d\<close> lying at \<open>["undefined"]\<close> (its path is
  neither the root path nor one that begins with \<open>undefined\<close>; or it is at the root path
  or at \<open>["undefined"]\<close> with the same value \<open>d\<close>; or it is below \<open>undefined\<close> and \<open>d\<close>
  already holds its value there), the extracted document, if extraction returns, maps
  \<open>undefined\<close> to \<open>d\<close> and is not \<open>d\<close> itself.
\<close>

theorem root_default_under_undefined:
  assumes dflt: "getProp schema ''default'' = Some d"
    and ret: "extractDefaultsFromSchema n schema = Some (Inr (doc, diags))"
  shows "writeDefault schema [] st = (setProp (fst st) ''undefined'' d, snd st) \<and>
         (\<exists>later. declared n schema [] schema = Some (([], d) # later) \<and>
            ((\<forall>w \<in> set later. agree ([''undefined''], d) (target (fst w), snd w)) \<longrightarrow>
               getProp doc ''undefined'' = Some d \<and> doc \<noteq> d))"
proof -
  from extract_writes[OF ret] obtain ws where
    ws: "declared n schema [] schema = Some ws" and doc: "doc = JObj (applyWrites [] ws)" by blast
  have wd: "writeDefault schema [] st = (setProp (fst st) ''undefined'' d, snd st)"
    using dflt by (simp add: writeDefault_def)
  from own_default_first[OF dflt ws] obtain later where later: "ws = ([], d) # later" by blast
  have "getProp doc ''undefined'' = Some d \<and> doc \<noteq> d"
    if ag: "\<forall>w \<in> set later. agree ([''undefined''], d) (target (fst w), snd w)"
  proof -
    let ?tl = "map (\<lambda>w. (target (fst w), snd w)) later"
    have start: "getPath (JObj (setDefault [] [] d)) [''undefined''] = Some d"
      by (simp add: getProp_JObj)
    have "getPath (JObj (applyWrites (setDefault [] [] d) ?tl)) [''undefined''] = Some d"
      using start
    proof (rule agreeing_writes_keep)
      show "[''undefined''] \<noteq> []" by simp
      fix w' assume "w' \<in> set ?tl"
      then obtain w where "w \<in> set later" "w' = (target (fst w), snd w)" by auto
      with ag show "fst w' \<noteq> [] \<and> agree ([''undefined''], d) w'" by (auto simp: target_def)
    qed
    then have "getPath (JObj (applyWrites (setDefault [] [] d) later)) [''undefined''] = Some d"
      by (simp only: applyWrites_target)
    with doc later have lookup: "getProp doc ''undefined'' = Some d"
      by (simp add: getProp_JObj split: option.splits)
    have "doc \<noteq> d"
    proof
      assume "doc = d"
      with lookup doc have "map_of (applyWrites [] ws) ''undefined'' = Some (JObj (applyWrites [] ws))"
        by (simp add: getProp_JObj)
      then have "size (JObj (applyWrites [] ws)) < size (JObj (applyWrites [] ws))" by (rule size_lookup)
      then show False by simp
    qed
    with lookup show ?thesis by simp
  qed
  with wd ws later show ?thesis by blast
qed

lemma rootRefProps_declared:
  "declared 3 rootRefPropsSchema [] rootRefPropsSchema = Some [([], JNum 1), ([''a''], JNum 2)]"
  by (simp add: eval_nat_numeral rootRefPropsSchema_def eval_defs)

theorem root_default_under_undefined_witness:
  "getProp rootRefPropsSchema ''default'' = Some (JNum 1) \<and>
   extractDefaultsFromSchema 3 rootRefPropsSchema
     = Some (Inr (JObj [(''undefined'', JNum 1), (''a'', JNum 2)], [])) \<and>
   declared 3 rootRefPropsSchema [] rootRefPropsSchema = Some [([], JNum 1), ([''a''], JNum 2)] \<and>
   agree ([''undefined''], JNum 1) (target [''a''], JNum 2) \<and>
   writeDefault rootRefPropsSchema [] ([], []) = (setProp [] ''undefined'' (JNum 1), []) \<and>
   getProp (JObj [(''undefined'', JNum 1), (''a'', JNum 2)]) ''undefined'' = Some (JNum 1) \<and>
   JObj [(''undefined'', JNum 1), (''a'', JNum 2)] \<noteq> JNum 1"
proof -
  let ?doc = "JObj [(''undefined'', JNum 1), (''a'', JNum 2)]"
  have h1: "getProp rootRefPropsSchema ''default'' = Some (JNum 1)"
    by (simp add: rootRefPropsSchema_def eval_defs)
  have h2: "extractDefaultsFromSchema 3 rootRefPropsSchema = Some (Inr (?doc, []))"
    by (simp add: eval_nat_numeral rootRefPropsSchema_def eval_defs)
  have h3: "agree ([''undefined''], JNum 1) (target [''a''], JNum 2)"
    by (simp add: agree_def target_def)
  note T = root_default_under_undefined[OF h1 h2, of "([], [])"]
  from T[THEN conjunct1]
  have a: "writeDefault rootRefPropsSchema [] ([], []) = (setProp [] ''undefined'' (JNum 1), [])"
    by simp
  from T[THEN conjunct2] obtain later where
    l: "declared 3 rootRefPropsSchema [] rootRefPropsSchema = Some (([], JNum 1) # later)"
    and imp: "(\<forall>w \<in> set later. agree ([''undefined''], JNum 1) (target (fst w), snd w)) \<longrightarrow>
               getProp ?doc ''undefined'' = Some (JNum 1) \<and> ?doc \<noteq> JNum 1"
    by blast
  from l rootRefProps_declared have "later = [([''a''], JNum 2)]" by simp
  with imp h3 have b: "getProp ?doc ''undefined'' = Some (JNum 1)" and c: "?doc \<noteq> JNum 1"
    by simp_all
  from h1 h2 rootRefProps_declared h3 a b c show ?thesis by blast
qed

text \<open>
  The claim as stated has no such condition, and a later write can land on the same key:
  the default of a root-level \<open>$ref\<close> target is written at the empty path too, and the
  default of a property named \<open>undefined\<close> is written under that key; here each replaces
  \<open>1\<close> by \<open>2\<close>.
\<close>

theorem root_ref_overwrites_counterexample:
  "getProp rootRefSchema ''default'' = Some (JNum 1) \<and>
   extractDefaultsFromSchema 2 rootRefSchema = Some (Inr (JObj [(''undefined'', JNum 2)], [])) \<and>
   getProp (JObj [(''undefined'', JNum 2)]) ''undefined'' \<noteq> Some (JNum 1) \<and>
   getProp undefinedPropSchema ''default'' = Some (JNum 1) \<and>
   extractDefaultsFromSchema 2 undefinedPropSchema = Some (Inr (JObj [(''undefined'', JNum 2)], []))"
  by (simp add: eval_nat_numeral rootRefSchema_def undefinedPropSchema_def eval_defs)

section \<open>The editor: dirtiness, saving, resetting\<close>

lemma structEq_refl: "structEq x x"
proof (induction x)
  case (JObj kvs)
  then show ?case by (fastforce simp: image_iff)
next
  case (JArr xs)
  then show ?case by (auto simp: set_zip)
qed simp_all

lemma structEqOpt_refl: "structEqOpt v v"
  by (cases v) (simp_all add: structEq_refl)

lemma deepDiff_refl: "deepDiff x x = []"
  by (simp add: deepDiff_def structEqOpt_refl)

text \<open>
  C9. \<open>onFieldChange\<close> replaces FormState with the new value and recomputes DirtyFlag;
  it sends no request and changes nothing else in the state.
\<close>

theorem onFieldChange_local:
  "onFieldChange st newValue = st\<lparr>formData := newValue, isDirty := isDirty (onFieldChange st newValue)\<rparr> \<and>
   formData (onFieldChange st newValue) = newValue \<and>
   inFlight (onFieldChange st newValue) = inFlight st \<and>
   data (onFieldChange st newValue) = data st"
  by (simp add: onFieldChange_def onChange_def dirtyEffect_def split: option.splits)

text \<open>
  C5. \<open>deepDiff x x\<close> is empty for every document; after \<open>reset\<close> FormState is the
  last-synced document and DirtyFlag is false; after a save that resolved DirtyFlag is
  false.
\<close>

theorem clean_after_reset_and_save:
  "deepDiff x x = [] \<and>
   (rendered st \<longrightarrow> data st = Some c \<longrightarrow> config c = Some saved \<longrightarrow> truthy saved \<longrightarrow>
      formData (reset st) = Some saved \<and> \<not> isDirty (reset st)) \<and>
   \<not> isDirty (handleChange_settled st i (Resolves r))"
  by (auto simp: deepDiff_refl reset_def restoreConfig_def dirtyEffect_def handleChange_settled_def)

theorem clean_after_reset_and_save_witness:
  "rendered editedState \<and>
   data editedState = Some \<lparr>config = Some (JObj [(''x'', JNum 1)]), jsonSchema = None, uiSchema = None\<rparr> \<and>
   truthy (JObj [(''x'', JNum 1)]) \<and>
   isDirty editedState \<and>
   formData (reset editedState) = Some (JObj [(''x'', JNum 1)]) \<and> \<not> isDirty (reset editedState)"
  using clean_after_reset_and_save[of "JNull" editedState
      "\<lparr>config = Some (JObj [(''x'', JNum 1)]), jsonSchema = None, uiSchema = None\<rparr>"
      "JObj [(''x'', JNum 1)]"]
  by (simp add: editedState_def rendered_def)




text \<open>
  C7 (as amended). Saving has no in-flight guard: whenever the form is rendered and
  DirtyFlag is true, a save sends one more request for the same assistant and leaves
  DirtyFlag true, however many requests are in flight.
\<close>

theorem save_not_serialised:
  "rendered st \<longrightarrow> isDirty st \<longrightarrow>
     (\<exists>st'. save st = Some st' \<and> length (inFlight st') = Suc (length (inFlight st)) \<and>
            rendered st' \<and> isDirty st' \<and> assistantId st' = assistantId st \<and>
            fst (last (inFlight st')) = assistantId st)"
  by (auto simp: save_def rendered_def handleChange_send_def split: option.splits)

theorem save_not_serialised_witness:
  "rendered editedState \<and> isDirty editedState \<and>
   (\<exists>st'. save editedState = Some st' \<and> length (inFlight st') = Suc (length (inFlight editedState)) \<and>
          rendered st' \<and> isDirty st')"
  using save_not_serialised[of editedState]
  by (auto simp: editedState_def rendered_def)

text \<open>
  From the initial state, after the configuration \<open>{x: 1}\<close> has loaded and a field was
  edited: two saves in a row, the first not yet settled, put two requests for the same
  assistant in flight, whether or not the effect runs in between.
\<close>

theorem two_saves_in_flight_counterexample:
  "editedState =
     onFieldChange
       (queryLoaded (initialState ''a1'')
          \<lparr>config = Some (JObj [(''x'', JNum 1)]), jsonSchema = None, uiSchema = None\<rparr>)
       (Some (JObj [(''x'', JNum 2)])) \<and>
   map fst (inFlight (the (save (the (save editedState))))) = [''a1'', ''a1''] \<and>
   map fst (inFlight (the (save (dirtyEffect (the (save editedState)))))) = [''a1'', ''a1'']"
  by (simp add: editedState_def onFieldChange_def onChange_def queryLoaded_def initialState_def
      loadEffect_def save_def rendered_def handleChange_send_def dirtyEffect_def
      deepDiff_def getProp_def)

end
